theory Spec2Isabelle
  imports Main
begin

section \<open>The transaction engine of fakeIndexedDB (src/FDBTransaction.ts)\<close>

text \<open>
  A shallow embedding of the class \<^verbatim>\<open>FDBTransaction\<close>. One transaction and
  the objects it touches (its requests, the database registry, the task queue of
  \<^verbatim>\<open>queueTask\<close>, the registered listeners) form a \<open>world\<close>; every method takes the
  world and returns its result together with the world it leaves behind. A JavaScript
  exception is the result \<open>Exn\<close>: the world returned with it holds every assignment made
  before the throw, as in JavaScript. An Isabelle name cannot start with an underscore:
  \<open>u_abort\<close>, \<open>u_start\<close> and \<open>u_execRequestAsync\<close> are \<^verbatim>\<open>_abort\<close>, \<^verbatim>\<open>_start\<close> and
  \<^verbatim>\<open>_execRequestAsync\<close>.
\<close>

subsection \<open>Values, errors, results\<close>

text \<open>An \<^verbatim>\<open>Error\<close> object is identified by its \<^verbatim>\<open>name\<close>, the only field the
  transaction reads (\<^verbatim>\<open>err.name\<close>).\<close>

datatype exn = Error (err_name: string)

definition InvalidStateError :: exn where
  "InvalidStateError = Error ''InvalidStateError''"

definition NotFoundError :: exn where
  "NotFoundError = Error ''NotFoundError''"

definition TransactionInactiveError :: exn where
  "TransactionInactiveError = Error ''TransactionInactiveError''"

definition AbortError :: exn where
  "AbortError = Error ''AbortError''"

datatype val = Undefined | Value int

datatype 'a res = Ret 'a | Exn exn

subsection \<open>Events and listeners\<close>

datatype target = TDatabase | TTransaction | TRequest nat

record event =
  ev_type :: string
  bubbles :: bool
  cancelable :: bool
  eventPath :: "target list"
  canceled :: bool

text \<open>\<^verbatim>\<open>new FakeEvent(type, {bubbles, cancelable})\<close>; both flags default to false.\<close>

definition FakeEvent :: "string \<Rightarrow> bool \<Rightarrow> bool \<Rightarrow> event" where
  "FakeEvent ty b c =
     \<lparr>ev_type = ty, bubbles = b, cancelable = c, eventPath = [], canceled = False\<rparr>"

text \<open>
  What a registered listener does with an event: it may call \<^verbatim>\<open>preventDefault()\<close>,
  and it returns or throws. Listeners of this model do not call back into the
  transaction; calls of the transaction's methods are steps of their own (see \<open>call\<close>).
\<close>

datatype handler = Handler (h_prevents: bool) (h_throws: "exn option")

text \<open>\<^verbatim>\<open>preventDefault()\<close> cancels a cancelable event only.\<close>

fun invoke_listeners :: "handler list \<Rightarrow> event \<Rightarrow> unit res \<times> event" where
  "invoke_listeners [] ev = (Ret (), ev)"
| "invoke_listeners (h # hs) ev =
     (let ev1 = (if h_prevents h \<and> cancelable ev then ev\<lparr>canceled := True\<rparr> else ev)
      in case h_throws h of
           Some e \<Rightarrow> (Exn e, ev1)
         | None \<Rightarrow> invoke_listeners hs ev1)"

subsection \<open>Requests, operations, rollback entries\<close>

datatype ready_state = Pending | Done

text \<open>The object a request comes from (store, index or cursor), with the
  \<^verbatim>\<open>transaction\<close> field \<^verbatim>\<open>_execRequestAsync\<close> copies into the request.\<close>

datatype source = Source (src_id: nat) (src_transaction: "target option")

record request =
  readyState :: ready_state
  result :: val
  req_error :: "exn option"
  source :: "source option"
  transaction :: "target option"

text \<open>\<^verbatim>\<open>new FDBRequest()\<close>\<close>

definition FDBRequest :: request where
  "FDBRequest =
     \<lparr>readyState = Pending, result = Undefined, req_error = None, source = None,
      transaction = None\<rparr>"

text \<open>An entry of \<^verbatim>\<open>_rollbackLog\<close>: a closure \<^verbatim>\<open>() => void\<close> of the storage
  layer. It is known by an identifier, which the trace records when the entry is called,
  and by whether it throws.\<close>

datatype rollback = Rollback (rb_id: nat) (rb_throws: "exn option")

datatype outcome = Returns val | Throws exn

text \<open>
  An operation is a closure \<^verbatim>\<open>() => void\<close> supplied by a store, index or cursor. What it
  does to the transaction is a sequence of calls of \<^verbatim>\<open>_execRequestAsync\<close> and of pushes
  on \<^verbatim>\<open>_rollbackLog\<close>, after which it returns a value or throws. \<open>RequestObj\<close> is the
  argument of \<^verbatim>\<open>_execRequestAsync\<close>; its \<open>obj_request\<close> is the address of the request to
  reuse (cursors), if any.
\<close>

datatype operation = Operation (op_acts: "op_action list") (op_outcome: outcome)
  and op_action = ExecRequestAsync RequestObj | PushRollback rollback
  and RequestObj =
    RequestObj (obj_source: "source option") (obj_operation: operation)
      (obj_request: "nat option")

subsection \<open>The world\<close>

datatype tx_state = Active | Inactive | Committing | Finished

datatype TransactionMode = Readonly | Readwrite | Versionchange

text \<open>\<^verbatim>\<open>new FDBObjectStore(transaction, rawObjectStore)\<close>: a handle with an identity of
  its own (\<open>os_id\<close>) on the raw store \<open>os_raw\<close>.\<close>

datatype objectStore = FDBObjectStore (os_id: nat) (os_raw: nat)

text \<open>The callbacks given to \<^verbatim>\<open>queueTask\<close>: \<^verbatim>\<open>this._start.bind(this)\<close> and the
  closure of \<^verbatim>\<open>_abort\<close> that dispatches the "abort" event.\<close>

datatype task = RunStart | FireAbort

text \<open>What an observer sees, in order: a rollback entry called, an operation called for
  a request, an event handed to \<^verbatim>\<open>dispatchEvent\<close> on a target.\<close>

datatype obs = Compensated nat | Executed nat | Dispatched target event

text \<open>
  The fields of the class come first, under their names in the source (\<open>state\<close> is
  \<^verbatim>\<open>_state\<close>, \<open>requests\<close> is \<^verbatim>\<open>_requests\<close>, and so on). The queue \<open>requests\<close> holds
  addresses of requests: the request objects live in \<open>heap\<close>, because the same request
  can be queued twice and \<^verbatim>\<open>_abort\<close> changes it through the queue. \<open>next_request\<close> and
  \<open>next_objectStore\<close> are the addresses \<^verbatim>\<open>new\<close> returns next. \<open>rawObjectStores\<close> is
  \<^verbatim>\<open>db._rawDatabase.rawObjectStores\<close>, \<open>tasks\<close> the queue of \<^verbatim>\<open>queueTask\<close>,
  \<open>listeners\<close> the listeners registered on each target for each event type (the
  \<^verbatim>\<open>on...\<close> properties included), \<open>trace\<close> the observations so far.
\<close>

record world =
  state :: tx_state
  started :: bool
  rollbackLog :: "rollback list"
  objectStoresCache :: "string \<rightharpoonup> objectStore"
  mode :: TransactionMode
  error :: "exn option"
  scope :: "string set"
  requests :: "(operation \<times> nat) list"
  rawObjectStores :: "string \<rightharpoonup> nat"
  heap :: "nat \<Rightarrow> request"
  next_request :: nat
  next_objectStore :: nat
  tasks :: "task list"
  listeners :: "target \<Rightarrow> string \<Rightarrow> handler list"
  trace :: "obs list"

text \<open>The constructor, for a database with the registry \<open>db\<close> and listeners \<open>ls\<close>.\<close>

definition FDBTransaction ::
  "string list \<Rightarrow> TransactionMode \<Rightarrow> (string \<rightharpoonup> nat) \<Rightarrow>
   (target \<Rightarrow> string \<Rightarrow> handler list) \<Rightarrow> world" where
  "FDBTransaction storeNames m db ls =
     \<lparr>state = Active, started = False, rollbackLog = [], objectStoresCache = Map.empty,
      mode = m, error = None, scope = set storeNames, requests = [],
      rawObjectStores = db, heap = (\<lambda>_. FDBRequest), next_request = 0,
      next_objectStore = 0, tasks = [], listeners = ls, trace = []\<rparr>"

definition queueTask :: "task \<Rightarrow> world \<Rightarrow> world" where
  "queueTask t w = w\<lparr>tasks := tasks w @ [t]\<rparr>"

definition observe :: "obs \<Rightarrow> world \<Rightarrow> world" where
  "observe x w = w\<lparr>trace := trace w @ [x]\<rparr>"

text \<open>
  Modelled from the spec: \<^verbatim>\<open>dispatchEvent\<close> of lib/FakeEventTarget, which is not among
  the sources. "\<open>dispatch(target, event)\<close> invokes listeners registered on \<open>target\<close>,
  then, if \<open>bubbles\<close>, on each entry of \<open>path\<close> in order; [...] Listener exceptions
  propagate to the caller of \<open>dispatch\<close>, aborting the remaining dispatch chain."
  The event is returned as the listeners leave it.
\<close>

definition dispatchEvent :: "target \<Rightarrow> event \<Rightarrow> world \<Rightarrow> unit res \<times> event \<times> world" where
  "dispatchEvent tgt ev w =
     (let chain = tgt # (if bubbles ev then eventPath ev else []);
          hs = concat (map (\<lambda>t. listeners w t (ev_type ev)) chain);
          (r, ev1) = invoke_listeners hs ev
      in (r, ev1, observe (Dispatched tgt ev) w))"

subsection \<open>\<^verbatim>\<open>_abort\<close> and \<^verbatim>\<open>abort\<close>\<close>

definition call_rollback :: "rollback \<Rightarrow> world \<Rightarrow> unit res \<times> world" where
  "call_rollback f w =
     (case rb_throws f of
        None \<Rightarrow> (Ret (), observe (Compensated (rb_id f)) w)
      | Some e \<Rightarrow> (Exn e, observe (Compensated (rb_id f)) w))"

text \<open>\<^verbatim>\<open>for (const f of log) { f(); }\<close>: a throw leaves the loop.\<close>

fun run_rollbacks :: "rollback list \<Rightarrow> world \<Rightarrow> unit res \<times> world" where
  "run_rollbacks [] w = (Ret (), w)"
| "run_rollbacks (f # fs) w =
     (case call_rollback f w of
        (Exn e, w1) \<Rightarrow> (Exn e, w1)
      | (Ret _, w1) \<Rightarrow> run_rollbacks fs w1)"

definition set_request :: "nat \<Rightarrow> (request \<Rightarrow> request) \<Rightarrow> world \<Rightarrow> world" where
  "set_request rid f w = w\<lparr>heap := (heap w)(rid := f (heap w rid))\<rparr>"

text \<open>The body of the second loop of \<^verbatim>\<open>_abort\<close>, for the request at \<open>rid\<close>.\<close>

definition abort_request :: "nat \<Rightarrow> world \<Rightarrow> unit res \<times> world" where
  "abort_request rid w =
     (if readyState (heap w rid) \<noteq> Done then
        (let w1 = set_request rid (\<lambda>r. r\<lparr>readyState := Done\<rparr>) w in
         if source (heap w1 rid) \<noteq> None then
           (let w2 = set_request rid
                       (\<lambda>r. r\<lparr>result := Undefined, req_error := Some AbortError\<rparr>) w1;
                ev = (FakeEvent ''error'' True True)\<lparr>eventPath := [TDatabase, TTransaction]\<rparr>;
                (r, ev1, w3) = dispatchEvent (TRequest rid) ev w2
            in (r, w3))
         else (Ret (), w1))
      else (Ret (), w))"

text \<open>\<^verbatim>\<open>for (const { request } of this._requests)\<close>. No listener of this model changes
  the queue, so the loop visits the entries the queue has when the loop starts.\<close>

fun abort_requests :: "(operation \<times> nat) list \<Rightarrow> world \<Rightarrow> unit res \<times> world" where
  "abort_requests [] w = (Ret (), w)"
| "abort_requests (r # rs) w =
     (case abort_request (snd r) w of
        (Exn e, w1) \<Rightarrow> (Exn e, w1)
      | (Ret _, w1) \<Rightarrow> abort_requests rs w1)"

text \<open>\<^verbatim>\<open>_abort(errName)\<close>. \<^verbatim>\<open>Array.prototype.reverse\<close> reverses the log in place.\<close>

definition u_abort :: "string option \<Rightarrow> world \<Rightarrow> unit res \<times> world" where
  "u_abort errName w =
     (let w0 = w\<lparr>rollbackLog := rev (rollbackLog w)\<rparr> in
      case run_rollbacks (rollbackLog w0) w0 of
        (Exn e, w1) \<Rightarrow> (Exn e, w1)
      | (Ret _, w1) \<Rightarrow>
          (let w2 = (case errName of None \<Rightarrow> w1 | Some n \<Rightarrow> w1\<lparr>error := Some (Error n)\<rparr>) in
           case abort_requests (requests w2) w2 of
             (Exn e, w3) \<Rightarrow> (Exn e, w3)
           | (Ret _, w3) \<Rightarrow> (Ret (), (queueTask FireAbort w3)\<lparr>state := Finished\<rparr>)))"

definition abort :: "world \<Rightarrow> unit res \<times> world" where
  "abort w =
     (if state w = Committing \<or> state w = Finished then (Exn InvalidStateError, w)
      else u_abort None (w\<lparr>state := Active\<rparr>))"

subsection \<open>\<^verbatim>\<open>objectStore\<close>\<close>

definition objectStore :: "string \<Rightarrow> world \<Rightarrow> objectStore res \<times> world" where
  "objectStore name w =
     (if state w \<noteq> Active then (Exn InvalidStateError, w)
      else case objectStoresCache w name of
        Some os \<Rightarrow> (Ret os, w)
      | None \<Rightarrow>
          (let rawObjectStore = rawObjectStores w name in
           if name \<notin> scope w \<or> rawObjectStore = None then (Exn NotFoundError, w)
           else
             (let objectStore2 = FDBObjectStore (next_objectStore w) (the rawObjectStore)
              in (Ret objectStore2,
                  w\<lparr>objectStoresCache := (objectStoresCache w)(name \<mapsto> objectStore2),
                    next_objectStore := Suc (next_objectStore w)\<rparr>))))"

subsection \<open>\<^verbatim>\<open>_execRequestAsync\<close>\<close>

text \<open>A request passed in is reused; otherwise a new one is allocated. A reused address
  is never handed out again by \<^verbatim>\<open>new\<close>.\<close>

definition u_execRequestAsync :: "RequestObj \<Rightarrow> world \<Rightarrow> nat res \<times> world" where
  "u_execRequestAsync obj w =
     (if state w \<noteq> Active then (Exn TransactionInactiveError, w)
      else
        (let (rid, w1) =
               (case obj_request obj of
                  Some r \<Rightarrow> (r, w\<lparr>next_request := max (next_request w) (Suc r)\<rparr>)
                | None \<Rightarrow>
                    (next_request w,
                     w\<lparr>heap := (heap w)(next_request w :=
                            (case obj_source obj of
                               None \<Rightarrow> FDBRequest
                             | Some s \<Rightarrow> FDBRequest\<lparr>source := Some s,
                                           transaction := src_transaction s\<rparr>)),
                       next_request := Suc (next_request w)\<rparr>))
         in (Ret rid, w1\<lparr>requests := requests w1 @ [(obj_operation obj, rid)]\<rparr>)))"

subsection \<open>Calling an operation\<close>

definition run_action :: "op_action \<Rightarrow> world \<Rightarrow> unit res \<times> world" where
  "run_action a w =
     (case a of
        ExecRequestAsync obj \<Rightarrow>
          (case u_execRequestAsync obj w of
             (Exn e, w1) \<Rightarrow> (Exn e, w1)
           | (Ret _, w1) \<Rightarrow> (Ret (), w1))
      | PushRollback f \<Rightarrow> (Ret (), w\<lparr>rollbackLog := rollbackLog w @ [f]\<rparr>))"

fun run_actions :: "op_action list \<Rightarrow> world \<Rightarrow> unit res \<times> world" where
  "run_actions [] w = (Ret (), w)"
| "run_actions (a # as) w =
     (case run_action a w of
        (Exn e, w1) \<Rightarrow> (Exn e, w1)
      | (Ret _, w1) \<Rightarrow> run_actions as w1)"

text \<open>\<^verbatim>\<open>operation()\<close>, called for the request at \<open>rid\<close>.\<close>

definition call_operation :: "operation \<Rightarrow> nat \<Rightarrow> world \<Rightarrow> val res \<times> world" where
  "call_operation operation rid w =
     (case run_actions (op_acts operation) (observe (Executed rid) w) of
        (Exn e, w1) \<Rightarrow> (Exn e, w1)
      | (Ret _, w1) \<Rightarrow>
          (case op_outcome operation of
             Returns v \<Rightarrow> (Ret v, w1)
           | Throws e \<Rightarrow> (Exn e, w1)))"

subsection \<open>\<^verbatim>\<open>_start\<close> and \<^verbatim>\<open>commit\<close>\<close>

text \<open>The \<^verbatim>\<open>while\<close> loop of \<^verbatim>\<open>_start\<close>: shift entries off the queue up to and including
  the first one whose request is not done.\<close>

fun shift_pending ::
  "(operation \<times> nat) list \<Rightarrow> (nat \<Rightarrow> request) \<Rightarrow>
   (operation \<times> nat) option \<times> (operation \<times> nat) list" where
  "shift_pending [] h = (None, [])"
| "shift_pending (r # q) h =
     (if readyState (h (snd r)) \<noteq> Done then (Some r, q) else shift_pending q h)"

text \<open>The second \<^verbatim>\<open>try\<close> of \<^verbatim>\<open>_start\<close> and the default action after it.
  \<open>defaultAction\<close> is the name bound in \<^verbatim>\<open>this._abort.bind(this, err.name)\<close>.\<close>

definition dispatch_and_default ::
  "nat \<Rightarrow> event \<Rightarrow> string option \<Rightarrow> world \<Rightarrow> unit res \<times> world" where
  "dispatch_and_default rid ev defaultAction w =
     (case dispatchEvent (TRequest rid) (ev\<lparr>eventPath := [TDatabase, TTransaction]\<rparr>) w of
        (Exn err, ev1, w1) \<Rightarrow>
          (if state w1 \<noteq> Committing then
             (case u_abort (Some ''AbortError'') w1 of
                (Exn e2, w2) \<Rightarrow> (Exn e2, w2)
              | (Ret _, w2) \<Rightarrow> (Exn err, w2))
           else (Exn err, w1))
      | (Ret _, ev1, w1) \<Rightarrow>
          (if \<not> canceled ev1 then
             (case defaultAction of
                Some n \<Rightarrow> u_abort (Some n) w1
              | None \<Rightarrow> (Ret (), w1))
           else (Ret (), w1)))"

definition reactivate :: "world \<Rightarrow> world" where
  "reactivate w = (if state w = Inactive then w\<lparr>state := Active\<rparr> else w)"

text \<open>The branch of \<^verbatim>\<open>_start\<close> for a request with a source.\<close>

definition run_sourced :: "operation \<Rightarrow> nat \<Rightarrow> world \<Rightarrow> unit res \<times> world" where
  "run_sourced operation rid w =
     (case call_operation operation rid w of
        (Ret v, w1) \<Rightarrow>
          (let w2 = set_request rid
                      (\<lambda>r. r\<lparr>readyState := Done, result := v, req_error := None\<rparr>) w1;
               w3 = reactivate w2
           in dispatch_and_default rid (FakeEvent ''success'' False False) None w3)
      | (Exn err, w1) \<Rightarrow>
          (let w2 = set_request rid
                      (\<lambda>r. r\<lparr>readyState := Done, result := Undefined,
                             req_error := Some err\<rparr>) w1;
               w3 = reactivate w2
           in dispatch_and_default rid (FakeEvent ''error'' True True)
                (Some (err_name err)) w3))"

text \<open>The branch for a request without a source: the operation is called and nothing
  else happens; what it throws leaves \<^verbatim>\<open>_start\<close>.\<close>

definition run_plain :: "operation \<Rightarrow> nat \<Rightarrow> world \<Rightarrow> unit res \<times> world" where
  "run_plain operation rid w =
     (case call_operation operation rid w of
        (Ret _, w1) \<Rightarrow> (Ret (), w1)
      | (Exn e, w1) \<Rightarrow> (Exn e, w1))"

text \<open>The end of \<^verbatim>\<open>_start\<close>, reached when no pending request was found.\<close>

definition finish :: "world \<Rightarrow> unit res \<times> world" where
  "finish w =
     (if state w \<noteq> Finished then
        (let w1 = w\<lparr>state := Finished\<rparr> in
         if error w1 = None then
           (case dispatchEvent TTransaction (FakeEvent ''complete'' False False) w1 of
              (r, ev1, w2) \<Rightarrow> (r, w2))
         else (Ret (), w1))
      else (Ret (), w))"

definition u_start :: "world \<Rightarrow> unit res \<times> world" where
  "u_start w =
     (let w0 = w\<lparr>started := True\<rparr>;
          (found, q) = shift_pending (requests w0) (heap w0);
          w1 = w0\<lparr>requests := q\<rparr>
      in case found of
           Some (operation, rid) \<Rightarrow>
             (case (if source (heap w1 rid) = None then run_plain operation rid w1
                    else run_sourced operation rid w1) of
                (Exn e, w2) \<Rightarrow> (Exn e, w2)
              | (Ret _, w2) \<Rightarrow> (Ret (), queueTask RunStart w2))
         | None \<Rightarrow> finish w1)"

definition commit :: "world \<Rightarrow> unit res \<times> world" where
  "commit w =
     (if state w \<noteq> Active then (Exn InvalidStateError, w)
      else (Ret (), w\<lparr>state := Committing\<rparr>))"

subsection \<open>The task queue and runs\<close>

text \<open>
  Modelled from the spec: \<^verbatim>\<open>queueTask\<close> of lib/scheduling, which is not among the
  sources. "\<open>schedule(callback)\<close> appends \<open>callback\<close> to a single global FIFO queue; the
  runtime drains this queue one entry per scheduling tick, [...] in strict insertion
  order." The task \<open>FireAbort\<close> is the closure queued by \<^verbatim>\<open>_abort\<close>.
\<close>

definition run_task :: "task \<Rightarrow> world \<Rightarrow> unit res \<times> world" where
  "run_task t w =
     (case t of
        RunStart \<Rightarrow> u_start w
      | FireAbort \<Rightarrow>
          (case dispatchEvent TTransaction
                  ((FakeEvent ''abort'' True False)\<lparr>eventPath := [TDatabase]\<rparr>) w of
             (r, ev1, w1) \<Rightarrow> (r, w1)))"

definition tick :: "world \<Rightarrow> unit res \<times> world" where
  "tick w =
     (case tasks w of
        [] \<Rightarrow> (Ret (), w)
      | t # ts \<Rightarrow> run_task t (w\<lparr>tasks := ts\<rparr>))"

text \<open>
  What can happen to a transaction: a call of one of its methods, by the database or by
  user code; a tick of the scheduler; a change of its surroundings (the database's
  registry, the listeners, a compensation pushed on the rollback log by the storage
  layer). An exception ends the call and leaves the world as it is at the throw.
\<close>

datatype call =
    CallExecRequestAsync RequestObj
  | CallAbort
  | CallCommit
  | CallObjectStore string
  | CallStart
  | Tick
  | SetRawObjectStores "(string \<times> nat) list"
  | SetListeners "(target \<times> string \<times> handler list) list"
  | PushRollbackLog rollback

fun listeners_of ::
  "(target \<times> string \<times> handler list) list \<Rightarrow> target \<Rightarrow> string \<Rightarrow> handler list" where
  "listeners_of [] t ty = []"
| "listeners_of ((t', ty', hs) # ls) t ty =
     (if t' = t \<and> ty' = ty then hs else listeners_of ls t ty)"

fun do_call :: "call \<Rightarrow> world \<Rightarrow> world" where
  "do_call (CallExecRequestAsync obj) w = snd (u_execRequestAsync obj w)"
| "do_call CallAbort w = snd (abort w)"
| "do_call CallCommit w = snd (commit w)"
| "do_call (CallObjectStore name) w = snd (objectStore name w)"
| "do_call CallStart w = snd (u_start w)"
| "do_call Tick w = snd (tick w)"
| "do_call (SetRawObjectStores db) w = w\<lparr>rawObjectStores := map_of db\<rparr>"
| "do_call (SetListeners ls) w = w\<lparr>listeners := listeners_of ls\<rparr>"
| "do_call (PushRollbackLog f) w = w\<lparr>rollbackLog := rollbackLog w @ [f]\<rparr>"

text \<open>A run: the calls of \<open>cs\<close>, in order.\<close>

definition run :: "call list \<Rightarrow> world \<Rightarrow> world" where
  "run cs w = fold do_call cs w"

section \<open>Notions used to state the properties\<close>

text \<open>A list of listeners none of which throws, and a world all of whose listeners are
  such.\<close>

definition quiet :: "handler list \<Rightarrow> bool" where
  "quiet hs = list_all (\<lambda>h. h_throws h = None) hs"

definition listeners_quiet :: "world \<Rightarrow> bool" where
  "listeners_quiet w = (\<forall>t ty. quiet (listeners w t ty))"

text \<open>The listeners \<open>dispatchEvent\<close> calls for an event on a target, in order.\<close>

definition dispatch_chain :: "world \<Rightarrow> target \<Rightarrow> event \<Rightarrow> handler list" where
  "dispatch_chain w tgt ev =
     concat (map (\<lambda>t. listeners w t (ev_type ev))
               (tgt # (if bubbles ev then eventPath ev else [])))"

text \<open>Of a list of rollback entries called in order: the entries that are called (up to
  and including the first one that throws), and what the first one that throws throws.\<close>

fun entries_called :: "rollback list \<Rightarrow> rollback list" where
  "entries_called [] = []"
| "entries_called (f # fs) =
     f # (case rb_throws f of None \<Rightarrow> entries_called fs | Some e \<Rightarrow> [])"

fun first_throw :: "rollback list \<Rightarrow> exn option" where
  "first_throw [] = None"
| "first_throw (f # fs) =
     (case rb_throws f of None \<Rightarrow> first_throw fs | Some e \<Rightarrow> Some e)"

definition compensations :: "rollback list \<Rightarrow> obs list" where
  "compensations fs = map (\<lambda>f. Compensated (rb_id f)) fs"

text \<open>The fields no method but \<^verbatim>\<open>objectStore\<close> touches.\<close>

definition static :: "world \<Rightarrow> world \<Rightarrow> bool" where
  "static w w1 \<longleftrightarrow>
     objectStoresCache w1 = objectStoresCache w \<and> scope w1 = scope w \<and> mode w1 = mode w \<and>
     rawObjectStores w1 = rawObjectStores w \<and> next_objectStore w1 = next_objectStore w \<and>
     listeners w1 = listeners w"

text \<open>Two worlds that differ in the request objects and the trace at most.\<close>

definition heap_trace_only :: "world \<Rightarrow> world \<Rightarrow> bool" where
  "heap_trace_only w w1 \<longleftrightarrow>
     static w w1 \<and> state w1 = state w \<and> started w1 = started w \<and>
     rollbackLog w1 = rollbackLog w \<and> error w1 = error w \<and> requests w1 = requests w \<and>
     next_request w1 = next_request w \<and> tasks w1 = tasks w"

text \<open>The transitions of \<^verbatim>\<open>_state\<close> the class makes.\<close>

definition transition :: "tx_state \<Rightarrow> tx_state \<Rightarrow> bool" where
  "transition s s1 \<longleftrightarrow>
     s1 = s \<or> s1 = Finished \<or> (s = Inactive \<and> s1 = Active) \<or> (s = Active \<and> s1 = Committing)"

text \<open>The events of a trace by kind.\<close>

fun is_complete :: "obs \<Rightarrow> bool" where
  "is_complete (Dispatched tgt ev) = (tgt = TTransaction \<and> ev_type ev = ''complete'')"
| "is_complete _ = False"

definition completes :: "world \<Rightarrow> nat" where
  "completes w = length (filter is_complete (trace w))"

fun is_abort_event :: "obs \<Rightarrow> bool" where
  "is_abort_event (Dispatched tgt ev) = (tgt = TTransaction \<and> ev_type ev = ''abort'')"
| "is_abort_event _ = False"

definition abort_events :: "world \<Rightarrow> obs list" where
  "abort_events w = filter is_abort_event (trace w)"

text \<open>The "abort" event of \<^verbatim>\<open>_abort\<close>, as constructed.\<close>

definition abort_event :: event where
  "abort_event =
     \<lparr>ev_type = ''abort'', bubbles = True, cancelable = False, eventPath = [TDatabase],
      canceled = False\<rparr>"

text \<open>The world \<^verbatim>\<open>_abort(n)\<close> reaches after its first loop, when no entry throws.\<close>

definition rolled_back :: "string option \<Rightarrow> world \<Rightarrow> world" where
  "rolled_back n w =
     w\<lparr>rollbackLog := rev (rollbackLog w),
       trace := trace w @ compensations (rev (rollbackLog w)),
       error := (case n of None \<Rightarrow> error w | Some x \<Rightarrow> Some (Error x))\<rparr>"


text \<open>An event dispatched on a request.\<close>

fun is_request_event :: "obs \<Rightarrow> bool" where
  "is_request_event (Dispatched (TRequest r) ev) = True"
| "is_request_event _ = False"

subsection \<open>Example transactions\<close>

definition tx_new :: world where
  "tx_new = FDBTransaction [''A''] Readwrite (map_of [(''A'', 0)]) (listeners_of [])"

definition tx_logged :: world where
  "tx_logged = tx_new\<lparr>rollbackLog := [Rollback 1 None, Rollback 2 None, Rollback 3 None]\<rparr>"

definition tx_throwing_log :: world where
  "tx_throwing_log =
     tx_new\<lparr>rollbackLog := [Rollback 1 None, Rollback 2 (Some (Error ''boom'')), Rollback 3 None]\<rparr>"

text \<open>Two worlds that differ at most in what an operation can change: the rollback log,
  the queue, the request objects and the trace.\<close>

definition operation_frame :: "world \<Rightarrow> world \<Rightarrow> bool" where
  "operation_frame w w1 \<longleftrightarrow>
     static w w1 \<and> state w1 = state w \<and> started w1 = started w \<and> error w1 = error w \<and>
     tasks w1 = tasks w"

text \<open>Every handle in the cache is for a store name of the scope.\<close>

definition cache_in_scope :: "world \<Rightarrow> bool" where
  "cache_in_scope w \<longleftrightarrow> dom (objectStoresCache w) \<subseteq> scope w"

definition tx_other_store :: world where
  "tx_other_store = run [SetRawObjectStores [(''A'', 0), (''B'', 1)], CallObjectStore ''A''] tx_new"

text \<open>The "error" event of a failed or aborted request, as it is handed to
  \<^verbatim>\<open>dispatchEvent\<close>, and the "success" event.\<close>

definition error_event :: event where
  "error_event =
     \<lparr>ev_type = ''error'', bubbles = True, cancelable = True,
      eventPath = [TDatabase, TTransaction], canceled = False\<rparr>"

definition success_event :: event where
  "success_event =
     \<lparr>ev_type = ''success'', bubbles = False, cancelable = False,
      eventPath = [TDatabase, TTransaction], canceled = False\<rparr>"

text \<open>The request at \<open>rid\<close> is done.\<close>

definition done_at :: "world \<Rightarrow> nat \<Rightarrow> bool" where
  "done_at w rid \<longleftrightarrow> readyState (heap w rid) = Done"

text \<open>The world \<^verbatim>\<open>_start\<close> is in when the "error" event of the request at \<open>rid\<close>, whose
  operation threw \<open>err\<close> and left the world \<open>w2\<close>, has been dispatched.\<close>

definition failed_at :: "nat \<Rightarrow> exn \<Rightarrow> world \<Rightarrow> world" where
  "failed_at rid err w2 =
     observe (Dispatched (TRequest rid) error_event)
       (reactivate (set_request rid
          (\<lambda>r. r\<lparr>readyState := Done, result := Undefined, req_error := Some err\<rparr>) w2))"

subsection \<open>More example transactions\<close>

definition src_A :: source where
  "src_A = Source 0 (Some TTransaction)"

definition op_fail :: operation where
  "op_fail = Operation [] (Throws (Error ''ConstraintError''))"

text \<open>Three compensating entries in the log and one request in the queue, whose
  operation throws.\<close>

definition tx_failing :: world where
  "tx_failing = snd (u_execRequestAsync (RequestObj (Some src_A) op_fail None) tx_logged)"

text \<open>The same with a listener on the request that calls \<^verbatim>\<open>preventDefault()\<close>.\<close>

definition tx_failing_prevented :: world where
  "tx_failing_prevented =
     tx_failing\<lparr>listeners := listeners_of [(TRequest 0, ''error'', [Handler True None])]\<rparr>"

text \<open>The same as \<open>tx_failing\<close> after \<^verbatim>\<open>commit()\<close>.\<close>

definition tx_failing_committing :: world where
  "tx_failing_committing = snd (commit tx_failing)"

text \<open>The events dispatched on the transaction itself ("complete" and "abort"), and a
  stretch of the trace without any.\<close>

fun is_tx_event :: "obs \<Rightarrow> bool" where
  "is_tx_event (Dispatched TTransaction ev) = True"
| "is_tx_event _ = False"

definition no_tx_event :: "obs list \<Rightarrow> bool" where
  "no_tx_event t = list_all (\<lambda>x. \<not> is_tx_event x) t"

text \<open>The "complete" event, as constructed.\<close>

definition complete_event :: event where
  "complete_event =
     \<lparr>ev_type = ''complete'', bubbles = False, cancelable = False, eventPath = [],
      canceled = False\<rparr>"

text \<open>The queue holds no request that is still pending: \<^verbatim>\<open>_start\<close> finds nothing to run.\<close>

definition drained :: "world \<Rightarrow> bool" where
  "drained w = list_all (\<lambda>x. done_at w (snd x)) (requests w)"

text \<open>The worlds in which at most one "complete" event has been dispatched, and in which
  one has been only if the transaction is finished with an empty queue and no error.\<close>

definition complete_once :: "world \<Rightarrow> bool" where
  "complete_once w \<longleftrightarrow>
     completes w = 0 \<or>
     (completes w = 1 \<and> state w = Finished \<and> requests w = [] \<and> error w = None)"

text \<open>A transaction aborted by \<^verbatim>\<open>abort()\<close> before its driver first runs.\<close>

definition tx_aborted :: world where
  "tx_aborted = run [CallAbort] tx_new"

text \<open>A transaction that takes no new requests: it is committing or finished.\<close>

definition closed :: "world \<Rightarrow> bool" where
  "closed w \<longleftrightarrow> state w = Committing \<or> state w = Finished"

text \<open>The request at \<open>rid\<close> is in the queue and not done.\<close>

definition waiting :: "world \<Rightarrow> nat \<Rightarrow> bool" where
  "waiting w rid \<longleftrightarrow> rid \<in> snd ` set (requests w) \<and> \<not> done_at w rid"

text \<open>In the stretch \<open>t\<close> of a trace, the operation of the request at \<open>rid\<close> is called
  before any "complete" event is dispatched.\<close>

definition executed_first :: "obs list \<Rightarrow> nat \<Rightarrow> bool" where
  "executed_first t rid \<longleftrightarrow> Executed rid \<in> set (takeWhile (\<lambda>x. \<not> is_complete x) t)"

text \<open>What is known of a request that was waiting when the transaction was closed, after
  the stretch \<open>t\<close> of the trace: it has been executed before any "complete" event, or no
  "complete" event has been dispatched and it is still waiting or the transaction has
  an error.\<close>

definition served :: "nat \<Rightarrow> obs list \<Rightarrow> world \<Rightarrow> bool" where
  "served rid t w \<longleftrightarrow>
     executed_first t rid \<or>
     (filter is_complete t = [] \<and> (waiting w rid \<or> error w \<noteq> None))"

subsection \<open>Example transactions with requests that succeed\<close>

definition op_put :: operation where
  "op_put = Operation [PushRollback (Rollback 7 None)] (Returns (Value 1))"

text \<open>A new transaction with one request in the queue.\<close>

definition tx_queued :: world where
  "tx_queued = run [CallExecRequestAsync (RequestObj (Some src_A) op_put None)] tx_new"

subsection \<open>The order of requests\<close>

text \<open>The requests on which an event was dispatched and the requests whose operation
  was called, in the order of the trace.\<close>

fun dispatched_on :: "obs list \<Rightarrow> nat list" where
  "dispatched_on [] = []"
| "dispatched_on (Dispatched (TRequest r) ev # t) = r # dispatched_on t"
| "dispatched_on (x # t) = dispatched_on t"

fun executed_on :: "obs list \<Rightarrow> nat list" where
  "executed_on [] = []"
| "executed_on (Executed r # t) = r # executed_on t"
| "executed_on (x # t) = executed_on t"

text \<open>The requests of the queue that are not done, in the order of the queue.\<close>

definition pending_queue :: "world \<Rightarrow> nat list" where
  "pending_queue w = filter (\<lambda>r. \<not> done_at w r) (map snd (requests w))"

text \<open>Requests as stores and indexes make them: with a source and a request object of
  their own (no request passed in for reuse), also those their operations make.\<close>

fun ok_operation :: "operation \<Rightarrow> bool"
  and ok_action :: "op_action \<Rightarrow> bool"
  and ok_obj :: "RequestObj \<Rightarrow> bool" where
  "ok_operation (Operation acts out) = list_all ok_action acts"
| "ok_action (ExecRequestAsync obj) = ok_obj obj"
| "ok_action (PushRollback f) = True"
| "ok_obj (RequestObj s operation r) = (s \<noteq> None \<and> r = None \<and> ok_operation operation)"

fun ok_call :: "call \<Rightarrow> bool" where
  "ok_call (CallExecRequestAsync obj) = ok_obj obj"
| "ok_call c = True"

text \<open>
  The invariant of the order: the requests with a dispatched event, then the requests
  \<open>F\<close> taken off the queue and not yet dispatched, then the pending requests of the
  queue are the requests made so far, in the order of their making; all of them have a
  source; the queue holds requests made so far, with operations that make such
  requests only.
\<close>

definition in_order :: "nat list \<Rightarrow> world \<Rightarrow> bool" where
  "in_order F w \<longleftrightarrow>
     dispatched_on (trace w) @ F @ pending_queue w = [0..<next_request w] \<and>
     (\<forall>r<next_request w. source (heap w r) \<noteq> None) \<and>
     list_all (\<lambda>x. ok_operation (fst x) \<and> snd x < next_request w) (requests w)"

text \<open>The operations called so far were called in the order of the making of their
  requests, and an event has been dispatched on each of their requests.\<close>

definition executed_in_order :: "world \<Rightarrow> bool" where
  "executed_in_order w \<longleftrightarrow>
     sorted_wrt (<) (executed_on (trace w)) \<and>
     set (executed_on (trace w)) \<subseteq> set (dispatched_on (trace w))"

subsection \<open>The scenario of three requests, the second of which makes a fourth\<close>








subsection \<open>Listeners that throw\<close>

text \<open>What the first listener of a list that throws throws.\<close>

fun listener_throw :: "handler list \<Rightarrow> exn option" where
  "listener_throw [] = None"
| "listener_throw (h # hs) =
     (case h_throws h of None \<Rightarrow> listener_throw hs | Some e \<Rightarrow> Some e)"

subsection \<open>Example transactions with a listener that throws\<close>

text \<open>The transaction \<open>tx_failing\<close> with a listener for the "error" event of its request
  that throws, and the same with a listener that calls \<^verbatim>\<open>preventDefault()\<close> and then
  throws.\<close>

definition tx_failing_loud :: world where
  "tx_failing_loud =
     tx_failing\<lparr>listeners :=
       listeners_of [(TRequest 0, ''error'', [Handler False (Some (Error ''ListenerError''))])]\<rparr>"

definition tx_failing_cancel_loud :: world where
  "tx_failing_cancel_loud =
     tx_failing\<lparr>listeners :=
       listeners_of [(TRequest 0, ''error'', [Handler True (Some (Error ''ListenerError''))])]\<rparr>"

text \<open>The first of them after \<^verbatim>\<open>commit()\<close>.\<close>

definition tx_failing_committing_loud :: world where
  "tx_failing_committing_loud = snd (commit tx_failing_loud)"

subsection \<open>Operations called on a transaction that is not active\<close>

text \<open>
  A transaction that is not active takes no new request: \<^verbatim>\<open>_execRequestAsync\<close> throws
  \<open>TransactionInactiveError\<close>. So an operation called then does its pushes on the
  rollback log up to its first call of \<^verbatim>\<open>_execRequestAsync\<close>, whose exception ends it; if
  it makes no such call, it ends as it says. \<open>pushed_before\<close> are those pushes,
  \<open>makes_request\<close> tells whether there is such a call, \<open>outcome_closed\<close> is how the
  operation ends, and \<open>executed_closed\<close> is the world it leaves.
\<close>

fun pushed_before :: "op_action list \<Rightarrow> rollback list" where
  "pushed_before [] = []"
| "pushed_before (PushRollback f # as) = f # pushed_before as"
| "pushed_before (ExecRequestAsync obj # as) = []"

fun makes_request :: "op_action list \<Rightarrow> bool" where
  "makes_request [] = False"
| "makes_request (PushRollback f # as) = makes_request as"
| "makes_request (ExecRequestAsync obj # as) = True"

definition outcome_closed :: "operation \<Rightarrow> val res" where
  "outcome_closed operation =
     (if makes_request (op_acts operation) then Exn TransactionInactiveError
      else case op_outcome operation of Returns v \<Rightarrow> Ret v | Throws e \<Rightarrow> Exn e)"

definition executed_closed :: "operation \<Rightarrow> nat \<Rightarrow> world \<Rightarrow> world" where
  "executed_closed operation rid w =
     w\<lparr>rollbackLog := rollbackLog w @ pushed_before (op_acts operation),
       trace := trace w @ [Executed rid]\<rparr>"

definition returns_closed :: "operation \<Rightarrow> bool" where
  "returns_closed operation =
     (case outcome_closed operation of Ret v \<Rightarrow> True | Exn e \<Rightarrow> False)"

text \<open>The world \<^verbatim>\<open>_start\<close> is in when the "success" event of the request at \<open>rid\<close>, whose
  operation returned \<open>v\<close> and left the world \<open>w2\<close>, has been dispatched.\<close>

definition succeeded_at :: "nat \<Rightarrow> val \<Rightarrow> world \<Rightarrow> world" where
  "succeeded_at rid v w2 =
     observe (Dispatched (TRequest rid) success_event)
       (reactivate (set_request rid
          (\<lambda>r. r\<lparr>readyState := Done, result := v, req_error := None\<rparr>) w2))"

subsection \<open>The queue\<close>



subsection \<open>A scenario with a request without a source and a request object used twice\<close>



section \<open>Lemmas about the methods\<close>

subsection \<open>Listeners and dispatch\<close>

lemma invoke_listeners_quiet:
  "quiet hs \<Longrightarrow> invoke_listeners hs ev =
     (Ret (), ev\<lparr>canceled := canceled ev \<or> (cancelable ev \<and> list_ex h_prevents hs)\<rparr>)"
proof (induction hs arbitrary: ev)
  case Nil
  then show ?case by simp
next
  case (Cons h hs)
  then show ?case by (auto simp: quiet_def)
qed

lemma quiet_concat: "\<forall>hs\<in>set hss. quiet hs \<Longrightarrow> quiet (concat hss)"
  by (induction hss) (auto simp: quiet_def)

lemma dispatchEvent_eq:
  "dispatchEvent tgt ev w =
     (case invoke_listeners (dispatch_chain w tgt ev) ev of
        (r, ev1) \<Rightarrow> (r, ev1, observe (Dispatched tgt ev) w))"
  by (simp add: dispatchEvent_def dispatch_chain_def Let_def)

lemma dispatchEvent_world:
  "dispatchEvent tgt ev w = (r, ev1, w1) \<Longrightarrow> w1 = observe (Dispatched tgt ev) w"
  by (auto simp: dispatchEvent_eq split: prod.splits)

lemma dispatch_chain_listeners:
  "listeners w1 = listeners w \<Longrightarrow> dispatch_chain w1 tgt ev = dispatch_chain w tgt ev"
  by (simp add: dispatch_chain_def)

lemma listeners_quiet_chain: "listeners_quiet w \<Longrightarrow> quiet (dispatch_chain w tgt ev)"
  unfolding dispatch_chain_def by (intro quiet_concat) (auto simp: listeners_quiet_def)

lemma listeners_quiet_cong:
  "listeners w1 = listeners w \<Longrightarrow> listeners_quiet w1 = listeners_quiet w"
  by (simp add: listeners_quiet_def)

lemma dispatchEvent_quiet:
  "quiet (dispatch_chain w tgt ev) \<Longrightarrow>
   dispatchEvent tgt ev w =
     (Ret (),
      ev\<lparr>canceled := canceled ev \<or>
            (cancelable ev \<and> list_ex h_prevents (dispatch_chain w tgt ev))\<rparr>,
      observe (Dispatched tgt ev) w)"
  by (simp add: dispatchEvent_eq invoke_listeners_quiet)

subsection \<open>Frames\<close>

lemma static_refl: "static w w"
  by (simp add: static_def)

lemma static_trans: "static w w1 \<Longrightarrow> static w1 w2 \<Longrightarrow> static w w2"
  by (simp add: static_def)

lemma heap_trace_only_refl: "heap_trace_only w w"
  by (simp add: heap_trace_only_def static_def)

lemma heap_trace_only_trans:
  "heap_trace_only w w1 \<Longrightarrow> heap_trace_only w1 w2 \<Longrightarrow> heap_trace_only w w2"
  by (simp add: heap_trace_only_def static_def)

subsection \<open>The rollback loop\<close>

lemma run_rollbacks_eq:
  "run_rollbacks fs w =
     ((case first_throw fs of None \<Rightarrow> Ret () | Some e \<Rightarrow> Exn e),
      w\<lparr>trace := trace w @ compensations (entries_called fs)\<rparr>)"
proof (induction fs arbitrary: w)
  case Nil
  then show ?case by (simp add: compensations_def)
next
  case (Cons f fs)
  then show ?case
    by (cases "rb_throws f") (simp_all add: call_rollback_def observe_def compensations_def)
qed

lemma first_throw_None: "first_throw fs = None \<longleftrightarrow> (\<forall>f\<in>set fs. rb_throws f = None)"
  by (induction fs) (auto split: option.splits)

lemma entries_called_all: "first_throw fs = None \<Longrightarrow> entries_called fs = fs"
  by (induction fs) (auto split: option.splits)

subsection \<open>The loop over the queue in \<open>u_abort\<close>\<close>

lemma abort_request_frame: "heap_trace_only w (snd (abort_request rid w))"
  unfolding abort_request_def Let_def set_request_def
  by (auto split: prod.splits dest!: dispatchEvent_world
       simp: observe_def heap_trace_only_def static_def)

lemma abort_requests_frame: "heap_trace_only w (snd (abort_requests q w))"
proof (induction q arbitrary: w)
  case Nil
  show ?case by (simp add: heap_trace_only_refl)
next
  case (Cons r q)
  obtain x w1 where a: "abort_request (snd r) w = (x, w1)"
    by (cases "abort_request (snd r) w")
  then have f: "heap_trace_only w w1"
    using abort_request_frame[of w "snd r"] by simp
  show ?case
  proof (cases x)
    case (Ret u)
    then show ?thesis
      using a f Cons.IH[of w1] by (auto intro: heap_trace_only_trans)
  next
    case (Exn e)
    then show ?thesis using a f by simp
  qed
qed

lemma abort_request_quiet:
  assumes "listeners_quiet w"
  shows "fst (abort_request rid w) = Ret ()"
proof -
  have "quiet (dispatch_chain w1 tgt ev)" if "listeners w1 = listeners w" for w1 tgt ev
    using that assms listeners_quiet_chain[of w1 tgt ev] listeners_quiet_cong[of w1 w] by simp
  then show ?thesis
    unfolding abort_request_def Let_def
    by (simp add: dispatchEvent_quiet set_request_def)
qed

lemma abort_requests_quiet:
  "listeners_quiet w \<Longrightarrow> fst (abort_requests q w) = Ret ()"
proof (induction q arbitrary: w)
  case Nil
  show ?case by simp
next
  case (Cons r q)
  obtain x w1 where a: "abort_request (snd r) w = (x, w1)"
    by (cases "abort_request (snd r) w")
  have x: "x = Ret ()"
    using abort_request_quiet[OF Cons.prems, of "snd r"] a by simp
  have "heap_trace_only w w1"
    using abort_request_frame[of w "snd r"] a by simp
  then have "listeners_quiet w1"
    using Cons.prems listeners_quiet_cong[of w1 w] by (simp add: heap_trace_only_def static_def)
  then show ?case
    using a x Cons.IH[of w1] by simp
qed

subsection \<open>\<open>u_abort\<close>\<close>

lemma u_abort_throwing:
  "first_throw (rev (rollbackLog w)) = Some e \<Longrightarrow>
   u_abort n w =
     (Exn e, w\<lparr>rollbackLog := rev (rollbackLog w),
               trace := trace w @ compensations (entries_called (rev (rollbackLog w)))\<rparr>)"
  by (simp add: u_abort_def Let_def run_rollbacks_eq)

lemma u_abort_no_throw:
  "first_throw (rev (rollbackLog w)) = None \<Longrightarrow>
   u_abort n w =
     (case abort_requests (requests w) (rolled_back n w) of
        (Exn e, w3) \<Rightarrow> (Exn e, w3)
      | (Ret _, w3) \<Rightarrow> (Ret (), (queueTask FireAbort w3)\<lparr>state := Finished\<rparr>))"
  by (cases n) (simp_all add: u_abort_def Let_def run_rollbacks_eq rolled_back_def entries_called_all)

lemma request_event_kinds:
  "is_request_event x \<Longrightarrow> \<not> is_complete x \<and> \<not> is_abort_event x \<and> (\<forall>i. x \<noteq> Compensated i) \<and> (\<forall>i. x \<noteq> Executed i)"
  by (cases x rule: is_request_event.cases) auto

lemma abort_request_trace:
  "\<exists>rest. trace (snd (abort_request rid w)) = trace w @ rest \<and> list_all is_request_event rest"
  unfolding abort_request_def Let_def set_request_def
  by (auto split: prod.splits dest!: dispatchEvent_world simp: observe_def)

lemma abort_requests_trace:
  "\<exists>rest. trace (snd (abort_requests q w)) = trace w @ rest \<and> list_all is_request_event rest"
proof (induction q arbitrary: w)
  case Nil
  show ?case by simp
next
  case (Cons r q)
  obtain x w1 where a: "abort_request (snd r) w = (x, w1)"
    by (cases "abort_request (snd r) w")
  obtain r1 where r1: "trace w1 = trace w @ r1" "list_all is_request_event r1"
    using abort_request_trace[of "snd r" w] a by auto
  show ?case
  proof (cases x)
    case (Ret u)
    obtain r2 where "trace (snd (abort_requests q w1)) = trace w1 @ r2" "list_all is_request_event r2"
      using Cons.IH[of w1] by auto
    then show ?thesis
      using a r1 Ret by (auto intro!: exI[of _ "r1 @ r2"])
  next
    case (Exn e)
    then show ?thesis using a r1 by auto
  qed
qed

lemma u_abort_trace:
  "\<exists>rest. trace (snd (u_abort n w)) =
            trace w @ compensations (entries_called (rev (rollbackLog w))) @ rest \<and>
          list_all is_request_event rest"
proof (cases "first_throw (rev (rollbackLog w))")
  case (Some e)
  then show ?thesis by (simp add: u_abort_throwing)
next
  case None
  let ?w2 = "rolled_back n w"
  obtain x w3 where a: "abort_requests (requests w) ?w2 = (x, w3)"
    by (cases "abort_requests (requests w) ?w2")
  obtain rest where r: "trace w3 = trace ?w2 @ rest" "list_all is_request_event rest"
    using abort_requests_trace[of "requests w" ?w2] a by auto
  have t2: "trace ?w2 = trace w @ compensations (entries_called (rev (rollbackLog w)))"
    using None by (simp add: rolled_back_def entries_called_all)
  show ?thesis
    using None a r t2 by (cases x) (auto simp: u_abort_no_throw queueTask_def)
qed

subsection \<open>Operations\<close>

lemma operation_frame_refl: "operation_frame w w"
  by (simp add: operation_frame_def static_def)

lemma operation_frame_trans:
  "operation_frame w w1 \<Longrightarrow> operation_frame w1 w2 \<Longrightarrow> operation_frame w w2"
  by (simp add: operation_frame_def static_def)

lemma u_execRequestAsync_frame:
  "operation_frame w (snd (u_execRequestAsync obj w))"
  by (auto simp: u_execRequestAsync_def Let_def operation_frame_def static_def
      split: option.splits prod.splits)

lemma u_execRequestAsync_trace: "trace (snd (u_execRequestAsync obj w)) = trace w"
  by (auto simp: u_execRequestAsync_def Let_def split: option.splits prod.splits)

lemma run_action_frame: "operation_frame w (snd (run_action a w))"
proof (cases a)
  case (ExecRequestAsync obj)
  then show ?thesis
    using u_execRequestAsync_frame[of w obj]
    by (auto simp: run_action_def split: prod.splits res.splits)
next
  case (PushRollback f)
  then show ?thesis by (simp add: run_action_def operation_frame_def static_def)
qed

lemma run_action_trace: "trace (snd (run_action a w)) = trace w"
proof (cases a)
  case (ExecRequestAsync obj)
  then show ?thesis
    using u_execRequestAsync_trace[of obj w]
    by (auto simp: run_action_def split: prod.splits res.splits)
next
  case (PushRollback f)
  then show ?thesis by (simp add: run_action_def)
qed

lemma run_actions_frame:
  "operation_frame w (snd (run_actions as w)) \<and> trace (snd (run_actions as w)) = trace w"
proof (induction as arbitrary: w)
  case Nil
  show ?case by (simp add: operation_frame_refl)
next
  case (Cons a as)
  obtain x w1 where a: "run_action a w = (x, w1)"
    by (cases "run_action a w")
  have f: "operation_frame w w1" "trace w1 = trace w"
    using run_action_frame[of w a] run_action_trace[of a w] a by simp_all
  show ?case
  proof (cases x)
    case (Ret u)
    then show ?thesis
      using a f Cons.IH[of w1] by (auto intro: operation_frame_trans)
  next
    case (Exn e)
    then show ?thesis using a f by simp
  qed
qed

lemma observe_frame: "operation_frame w (observe x w)" "heap_trace_only w (observe x w)"
  by (simp_all add: observe_def operation_frame_def heap_trace_only_def static_def)

lemma call_operation_frame:
  "operation_frame w (snd (call_operation operation rid w))"
proof -
  let ?w0 = "observe (Executed rid) w"
  have "operation_frame w ?w0" by (rule observe_frame)
  moreover have "operation_frame ?w0 (snd (run_actions (op_acts operation) ?w0))"
    using run_actions_frame by blast
  ultimately have "operation_frame w (snd (run_actions (op_acts operation) ?w0))"
    by (rule operation_frame_trans)
  then show ?thesis
    by (auto simp: call_operation_def split: prod.splits res.splits outcome.splits)
qed

lemma call_operation_trace:
  "trace (snd (call_operation operation rid w)) = trace w @ [Executed rid]"
proof -
  let ?w0 = "observe (Executed rid) w"
  have "trace (snd (run_actions (op_acts operation) ?w0)) = trace ?w0"
    using run_actions_frame by blast
  then show ?thesis
    by (auto simp: call_operation_def observe_def split: prod.splits res.splits outcome.splits)
qed

subsection \<open>More on \<open>u_abort\<close>\<close>

lemma rolled_back_fields:
  "static w (rolled_back n w)" "listeners (rolled_back n w) = listeners w"
  "state (rolled_back n w) = state w" "tasks (rolled_back n w) = tasks w"
  "requests (rolled_back n w) = requests w" "heap (rolled_back n w) = heap w"
  "started (rolled_back n w) = started w" "next_request (rolled_back n w) = next_request w"
  by (simp_all add: rolled_back_def static_def)

lemma u_abort_cases:
  obtains
    (throws) e where "first_throw (rev (rollbackLog w)) = Some e"
      "u_abort n w =
         (Exn e, w\<lparr>rollbackLog := rev (rollbackLog w),
                   trace := trace w @ compensations (entries_called (rev (rollbackLog w)))\<rparr>)"
  | (listener) e w3 where "first_throw (rev (rollbackLog w)) = None"
      "abort_requests (requests w) (rolled_back n w) = (Exn e, w3)"
      "u_abort n w = (Exn e, w3)" "heap_trace_only (rolled_back n w) w3"
  | (completed) w3 where "first_throw (rev (rollbackLog w)) = None"
      "abort_requests (requests w) (rolled_back n w) = (Ret (), w3)"
      "u_abort n w = (Ret (), (queueTask FireAbort w3)\<lparr>state := Finished\<rparr>)"
      "heap_trace_only (rolled_back n w) w3"
proof (cases "first_throw (rev (rollbackLog w))")
  case (Some e)
  then show ?thesis using throws u_abort_throwing by blast
next
  case None
  obtain x w3 where a: "abort_requests (requests w) (rolled_back n w) = (x, w3)"
    by (cases "abort_requests (requests w) (rolled_back n w)")
  have f: "heap_trace_only (rolled_back n w) w3"
    using abort_requests_frame[of "rolled_back n w" "requests w"] a by simp
  show ?thesis
  proof (cases x)
    case (Ret u)
    then show ?thesis using None a f completed by (simp add: u_abort_no_throw)
  next
    case (Exn e)
    then show ?thesis using None a f listener by (simp add: u_abort_no_throw)
  qed
qed

lemma u_abort_static: "static w (snd (u_abort n w))"
proof (cases n w rule: u_abort_cases)
  case (throws e)
  then show ?thesis by (simp add: static_def)
next
  case (listener e w3)
  then show ?thesis
    using rolled_back_fields(1)[of w n] by (auto simp: heap_trace_only_def intro: static_trans)
next
  case (completed w3)
  then show ?thesis
    using rolled_back_fields(1)[of w n]
    by (auto simp: heap_trace_only_def static_def queueTask_def)
qed

lemma u_abort_state: "state (snd (u_abort n w)) = state w \<or> state (snd (u_abort n w)) = Finished"
proof (cases n w rule: u_abort_cases)
  case (throws e)
  then show ?thesis by simp
next
  case (listener e w3)
  then show ?thesis by (simp add: heap_trace_only_def rolled_back_fields)
next
  case (completed w3)
  then show ?thesis by simp
qed

lemma u_abort_returns:
  assumes "fst (u_abort n w) = Ret ()"
  shows "state (snd (u_abort n w)) = Finished \<and>
    tasks (snd (u_abort n w)) = tasks w @ [FireAbort] \<and>
    error (snd (u_abort n w)) = (case n of None \<Rightarrow> error w | Some x \<Rightarrow> Some (Error x)) \<and>
    rollbackLog (snd (u_abort n w)) = rev (rollbackLog w) \<and>
    requests (snd (u_abort n w)) = requests w \<and> first_throw (rev (rollbackLog w)) = None"
proof (cases n w rule: u_abort_cases)
  case (throws e)
  then show ?thesis using assms by simp
next
  case (listener e w3)
  then show ?thesis using assms by simp
next
  case (completed w3)
  then show ?thesis
    by (simp add: heap_trace_only_def queueTask_def rolled_back_def)
qed

lemma u_abort_succeeds:
  assumes "first_throw (rev (rollbackLog w)) = None" and "listeners_quiet w"
  shows "fst (u_abort n w) = Ret ()"
proof -
  have "listeners_quiet (rolled_back n w)"
    using assms(2) listeners_quiet_cong[of "rolled_back n w" w] by (simp add: rolled_back_fields)
  then have "fst (abort_requests (requests w) (rolled_back n w)) = Ret ()"
    by (rule abort_requests_quiet)
  then show ?thesis
    using assms(1) by (auto simp: u_abort_no_throw split: prod.splits res.splits)
qed

lemma u_abort_fails:
  assumes "fst (u_abort n w) = Exn e"
  shows "tasks (snd (u_abort n w)) = tasks w \<and> state (snd (u_abort n w)) = state w \<and>
      requests (snd (u_abort n w)) = requests w"
proof (cases n w rule: u_abort_cases)
  case (throws e)
  then show ?thesis by simp
next
  case (listener e w3)
  then show ?thesis by (simp add: heap_trace_only_def rolled_back_fields)
next
  case (completed w3)
  then show ?thesis using assms by simp
qed

subsection \<open>The driver\<close>

lemma set_request_frame: "heap_trace_only w (set_request rid f w)"
  by (simp add: set_request_def heap_trace_only_def static_def)

lemma reactivate_static: "static w (reactivate w)"
  by (simp add: reactivate_def static_def)

lemma transition_refl: "transition s s"
  by (simp add: transition_def)

lemma transition_Finished: "transition Finished s \<Longrightarrow> s = Finished"
  by (auto simp: transition_def)

lemma dispatch_and_default_static: "static w (snd (dispatch_and_default rid ev d w))"
proof -
  obtain x ev1 w1 where a:
    "dispatchEvent (TRequest rid) (ev\<lparr>eventPath := [TDatabase, TTransaction]\<rparr>) w = (x, ev1, w1)"
    by (cases "dispatchEvent (TRequest rid) (ev\<lparr>eventPath := [TDatabase, TTransaction]\<rparr>) w")
  then have w1: "static w w1"
    by (auto dest!: dispatchEvent_world simp: observe_def static_def)
  have ab: "static w (snd (u_abort n w1))" for n
    using u_abort_static[of w1 n] w1 static_trans by blast
  have "static w x2" if "u_abort n w1 = (r, x2)" for n r x2
    using ab[of n] that by simp
  then show ?thesis
    using a w1 ab unfolding dispatch_and_default_def
    by (auto split: res.splits prod.splits option.splits)
qed

lemma dispatch_and_default_state:
  "state (snd (dispatch_and_default rid ev d w)) = state w \<or>
   state (snd (dispatch_and_default rid ev d w)) = Finished"
proof -
  obtain x ev1 w1 where a:
    "dispatchEvent (TRequest rid) (ev\<lparr>eventPath := [TDatabase, TTransaction]\<rparr>) w = (x, ev1, w1)"
    by (cases "dispatchEvent (TRequest rid) (ev\<lparr>eventPath := [TDatabase, TTransaction]\<rparr>) w")
  then have w1: "state w1 = state w"
    by (auto dest!: dispatchEvent_world simp: observe_def)
  have ab: "state (snd (u_abort n w1)) = state w \<or> state (snd (u_abort n w1)) = Finished" for n
    using u_abort_state[of n w1] w1 by simp
  have "state x2 = state w \<or> state x2 = Finished" if "u_abort n w1 = (r, x2)" for n r x2
    using ab[of n] that by simp
  then show ?thesis
    using a w1 ab unfolding dispatch_and_default_def
    by (auto split: res.splits prod.splits option.splits)
qed

lemma run_sourced_static: "static w (snd (run_sourced operation rid w))"
proof -
  obtain x w1 where a: "call_operation operation rid w = (x, w1)"
    by (cases "call_operation operation rid w")
  then have w1: "static w w1"
    using call_operation_frame[of w operation rid] by (simp add: operation_frame_def)
  have "static w (snd (dispatch_and_default rid ev d (reactivate (set_request rid f w1))))"
    for ev d f
  proof -
    have "static w1 (reactivate (set_request rid f w1))"
      by (simp add: reactivate_def set_request_def static_def)
    then show ?thesis
      using w1 dispatch_and_default_static static_trans by blast
  qed
  then show ?thesis
    using a unfolding run_sourced_def Let_def by (auto split: res.splits)
qed

lemma run_sourced_state: "transition (state w) (state (snd (run_sourced operation rid w)))"
proof -
  obtain x w1 where a: "call_operation operation rid w = (x, w1)"
    by (cases "call_operation operation rid w")
  then have w1: "state w1 = state w"
    using call_operation_frame[of w operation rid] by (simp add: operation_frame_def)
  have "transition (state w) (state (snd (dispatch_and_default rid ev d (reactivate (set_request rid f w1)))))"
    for ev d f
    using dispatch_and_default_state[of rid ev d "reactivate (set_request rid f w1)"] w1
    by (auto simp: transition_def reactivate_def set_request_def)
  then show ?thesis
    using a unfolding run_sourced_def Let_def by (auto split: res.splits)
qed

lemma run_plain_frame: "operation_frame w (snd (run_plain operation rid w))"
  using call_operation_frame[of w operation rid]
  by (auto simp: run_plain_def split: prod.splits res.splits)

lemma finish_static: "static w (snd (finish w))"
  by (auto simp: finish_def Let_def static_def observe_def split: prod.splits
      dest!: dispatchEvent_world)

lemma finish_state: "state (snd (finish w)) = Finished"
  by (auto simp: finish_def Let_def observe_def split: prod.splits dest!: dispatchEvent_world)

lemma u_start_static: "static w (snd (u_start w))"
proof -
  obtain found q where s: "shift_pending (requests w) (heap w) = (found, q)"
    by (cases "shift_pending (requests w) (heap w)")
  let ?w1 = "w\<lparr>started := True, requests := q\<rparr>"
  have w1: "static w ?w1" by (simp add: static_def)
  show ?thesis
  proof (cases found)
    case None
    then show ?thesis
      using s w1 finish_static[of ?w1] by (auto simp: u_start_def intro: static_trans)
  next
    case (Some r)
    obtain operation rid where r: "r = (operation, rid)" by (cases r)
    obtain y w2 where b:
      "(if source (heap ?w1 rid) = None then run_plain operation rid ?w1
        else run_sourced operation rid ?w1) = (y, w2)"
      by (cases "if source (heap ?w1 rid) = None then run_plain operation rid ?w1
        else run_sourced operation rid ?w1")
    have "static ?w1 w2"
      using run_plain_frame[of ?w1 operation rid] run_sourced_static[of ?w1 operation rid] b
      by (auto simp: operation_frame_def split: if_splits)
    then have "static w w2"
      using w1 static_trans by blast
    then show ?thesis
      using s Some r b
      by (cases y) (auto simp: u_start_def queueTask_def static_def)
  qed
qed

lemma u_start_state: "transition (state w) (state (snd (u_start w)))"
proof -
  obtain found q where s: "shift_pending (requests w) (heap w) = (found, q)"
    by (cases "shift_pending (requests w) (heap w)")
  let ?w1 = "w\<lparr>started := True, requests := q\<rparr>"
  show ?thesis
  proof (cases found)
    case None
    then show ?thesis
      using s finish_state[of ?w1] by (simp add: u_start_def transition_def)
  next
    case (Some r)
    obtain operation rid where r: "r = (operation, rid)" by (cases r)
    obtain y w2 where b:
      "(if source (heap ?w1 rid) = None then run_plain operation rid ?w1
        else run_sourced operation rid ?w1) = (y, w2)"
      by (cases "if source (heap ?w1 rid) = None then run_plain operation rid ?w1
        else run_sourced operation rid ?w1")
    have "transition (state w) (state w2)"
      using run_plain_frame[of ?w1 operation rid] run_sourced_state[of ?w1 operation rid] b
      by (auto simp: operation_frame_def transition_def split: if_splits)
    then show ?thesis
      using s Some r b
      by (cases y) (auto simp: u_start_def queueTask_def)
  qed
qed

lemma abort_static: "static w (snd (abort w))"
proof (cases "state w = Committing \<or> state w = Finished")
  case True
  then show ?thesis by (simp add: abort_def static_refl)
next
  case False
  have "static w (w\<lparr>state := Active\<rparr>)" by (simp add: static_def)
  then have "static w (snd (u_abort None (w\<lparr>state := Active\<rparr>)))"
    using u_abort_static static_trans by blast
  then show ?thesis using False by (simp add: abort_def)
qed

lemma abort_state: "transition (state w) (state (snd (abort w)))"
proof (cases "state w = Committing \<or> state w = Finished")
  case True
  then show ?thesis by (simp add: abort_def transition_refl)
next
  case False
  then have s: "state w = Active \<or> state w = Inactive"
    by (cases "state w") simp_all
  have "state (snd (u_abort None (w\<lparr>state := Active\<rparr>))) = Active \<or>
        state (snd (u_abort None (w\<lparr>state := Active\<rparr>))) = Finished"
    using u_abort_state[of None "w\<lparr>state := Active\<rparr>"] by simp
  then have "transition (state w) (state (snd (u_abort None (w\<lparr>state := Active\<rparr>))))"
    using s unfolding transition_def by presburger
  then show ?thesis using False by (simp add: abort_def)
qed

lemma commit_state: "transition (state w) (state (snd (commit w)))"
  by (simp add: commit_def transition_def)

lemma objectStore_state: "state (snd (objectStore name w)) = state w"
  by (simp add: objectStore_def Let_def split: option.splits)

lemma fire_abort_eq:
  "run_task FireAbort w =
     (fst (invoke_listeners (dispatch_chain w TTransaction abort_event) abort_event),
      observe (Dispatched TTransaction abort_event) w)"
proof -
  have "(FakeEvent ''abort'' True False)\<lparr>eventPath := [TDatabase]\<rparr> = abort_event"
    by (simp add: FakeEvent_def abort_event_def)
  then show ?thesis
    by (simp add: run_task_def dispatchEvent_eq split: prod.splits)
qed

lemma run_task_static: "static w (snd (run_task t w))"
proof (cases t)
  case RunStart
  then show ?thesis by (simp add: run_task_def u_start_static)
next
  case FireAbort
  then show ?thesis by (simp add: fire_abort_eq observe_def static_def)
qed

lemma run_task_state: "transition (state w) (state (snd (run_task t w)))"
proof (cases t)
  case RunStart
  then show ?thesis by (simp add: run_task_def u_start_state)
next
  case FireAbort
  then show ?thesis by (simp add: fire_abort_eq observe_def transition_def)
qed

lemma tick_state: "transition (state w) (state (snd (tick w)))"
proof (cases "tasks w")
  case Nil
  then show ?thesis by (simp add: tick_def transition_def)
next
  case (Cons t ts)
  then show ?thesis
    using run_task_state[of "w\<lparr>tasks := ts\<rparr>" t] by (simp add: tick_def)
qed

lemma do_call_state: "transition (state w) (state (do_call c w))"
proof (cases c)
  case (CallExecRequestAsync obj)
  then show ?thesis
    using u_execRequestAsync_frame[of w obj] by (simp add: operation_frame_def transition_def)
next
  case CallAbort
  then show ?thesis by (simp add: abort_state)
next
  case CallCommit
  then show ?thesis by (simp add: commit_state)
next
  case (CallObjectStore name)
  then show ?thesis by (simp add: objectStore_state transition_def)
next
  case CallStart
  then show ?thesis by (simp add: u_start_state)
next
  case Tick
  then show ?thesis by (simp add: tick_state)
next
  case (SetRawObjectStores db)
  then show ?thesis by (simp add: transition_def)
next
  case (SetListeners ls)
  then show ?thesis by (simp add: transition_def)
next
  case (PushRollbackLog f)
  then show ?thesis by (simp add: transition_def)
qed

lemma run_Nil: "run [] w = w"
  by (simp add: run_def)

lemma run_Cons: "run (c # cs) w = run cs (do_call c w)"
  by (simp add: run_def)

lemma run_append: "run (cs @ ds) w = run ds (run cs w)"
  by (simp add: run_def)

lemma run_snoc: "run (cs @ [c]) w = do_call c (run cs w)"
  by (simp add: run_def)

lemma finished_is_terminal: "state w = Finished \<Longrightarrow> state (run cs w) = Finished"
proof (induction cs arbitrary: w)
  case Nil
  then show ?case by (simp add: run_Nil)
next
  case (Cons c cs)
  have "state (do_call c w) = Finished"
    using do_call_state[of w c] Cons.prems transition_Finished by simp
  then show ?case
    using Cons.IH by (simp add: run_Cons)
qed

subsection \<open>The scope and the cache of handles\<close>

lemma tick_static: "static w (snd (tick w))"
proof (cases "tasks w")
  case Nil
  then show ?thesis by (simp add: tick_def static_refl)
next
  case (Cons t ts)
  have "static w (w\<lparr>tasks := ts\<rparr>)" by (simp add: static_def)
  then have "static w (snd (run_task t (w\<lparr>tasks := ts\<rparr>)))"
    using run_task_static static_trans by blast
  then show ?thesis using Cons by (simp add: tick_def)
qed

lemma static_cache_in_scope:
  "static w w1 \<Longrightarrow> scope w1 = scope w \<and> (cache_in_scope w \<longrightarrow> cache_in_scope w1)"
  by (simp add: static_def cache_in_scope_def)

lemma objectStore_cache_in_scope:
  "scope (snd (objectStore name w)) = scope w \<and>
   (cache_in_scope w \<longrightarrow> cache_in_scope (snd (objectStore name w)))"
  by (auto simp: objectStore_def Let_def cache_in_scope_def split: option.splits)

lemma do_call_cache_in_scope:
  "scope (do_call c w) = scope w \<and> (cache_in_scope w \<longrightarrow> cache_in_scope (do_call c w))"
proof (cases c)
  case (CallExecRequestAsync obj)
  have "static w (snd (u_execRequestAsync obj w))"
    using u_execRequestAsync_frame[of w obj] by (simp add: operation_frame_def)
  then show ?thesis
    using CallExecRequestAsync static_cache_in_scope[of w "snd (u_execRequestAsync obj w)"]
    by simp
next
  case CallAbort
  then show ?thesis
    using static_cache_in_scope[OF abort_static[of w]] by simp
next
  case CallCommit
  then show ?thesis by (simp add: commit_def cache_in_scope_def)
next
  case (CallObjectStore name)
  then show ?thesis using objectStore_cache_in_scope by simp
next
  case CallStart
  then show ?thesis
    using static_cache_in_scope[OF u_start_static[of w]] by simp
next
  case Tick
  then show ?thesis
    using static_cache_in_scope[OF tick_static[of w]] by simp
next
  case (SetRawObjectStores db)
  then show ?thesis by (simp add: cache_in_scope_def)
next
  case (SetListeners ls)
  then show ?thesis by (simp add: cache_in_scope_def)
next
  case (PushRollbackLog f)
  then show ?thesis by (simp add: cache_in_scope_def)
qed

lemma run_cache_in_scope:
  "cache_in_scope w \<Longrightarrow> scope (run cs w) = scope w \<and> cache_in_scope (run cs w)"
proof (induction cs arbitrary: w)
  case Nil
  then show ?case by (simp add: run_Nil)
next
  case (Cons c cs)
  have "scope (do_call c w) = scope w" "cache_in_scope (do_call c w)"
    using do_call_cache_in_scope[of c w] Cons.prems by simp_all
  then show ?case
    using Cons.IH[of "do_call c w"] by (simp add: run_Cons)
qed

lemma new_cache_in_scope: "cache_in_scope (FDBTransaction storeNames m db ls)"
  by (simp add: cache_in_scope_def FDBTransaction_def)

subsection \<open>Requests that are done stay as they are\<close>

lemma abort_request_done_same:
  "done_at w r \<Longrightarrow> heap (snd (abort_request rid w)) r = heap w r"
  unfolding abort_request_def Let_def set_request_def done_at_def
  by (auto split: prod.splits dest!: dispatchEvent_world simp: observe_def)

lemma abort_request_marks: "done_at (snd (abort_request rid w)) rid"
  unfolding abort_request_def Let_def set_request_def done_at_def
  by (auto split: prod.splits dest!: dispatchEvent_world simp: observe_def)

lemma abort_requests_done_same:
  "done_at w r \<Longrightarrow> heap (snd (abort_requests q w)) r = heap w r"
proof (induction q arbitrary: w)
  case Nil
  show ?case by simp
next
  case (Cons x q)
  obtain y w1 where a: "abort_request (snd x) w = (y, w1)"
    by (cases "abort_request (snd x) w")
  have h: "heap w1 r = heap w r"
    using abort_request_done_same[OF Cons.prems, of "snd x"] a by simp
  then have "done_at w1 r"
    using Cons.prems by (simp add: done_at_def)
  then have "heap (snd (abort_requests q w1)) r = heap w1 r"
    by (rule Cons.IH)
  then show ?case
    using a h by (cases y) simp_all
qed

lemma abort_requests_marks:
  "fst (abort_requests q w) = Ret () \<Longrightarrow> \<forall>x\<in>set q. done_at (snd (abort_requests q w)) (snd x)"
proof (induction q arbitrary: w)
  case Nil
  show ?case by simp
next
  case (Cons x q)
  obtain y w1 where a: "abort_request (snd x) w = (y, w1)"
    by (cases "abort_request (snd x) w")
  have y: "y = Ret ()"
    using Cons.prems a by (cases y) simp_all
  then have e: "abort_requests (x # q) w = abort_requests q w1"
    using a by simp
  have d: "done_at w1 (snd x)"
    using abort_request_marks[of "snd x" w] a by simp
  have "heap (snd (abort_requests q w1)) (snd x) = heap w1 (snd x)"
    using d by (rule abort_requests_done_same)
  then have "done_at (snd (abort_requests q w1)) (snd x)"
    using d by (simp add: done_at_def)
  moreover have "\<forall>z\<in>set q. done_at (snd (abort_requests q w1)) (snd z)"
    using Cons.IH[of w1] Cons.prems e by simp
  ultimately show ?case
    using e by simp
qed

lemma rolled_back_done: "done_at (rolled_back n w) r = done_at w r"
  by (simp add: done_at_def rolled_back_fields)

lemma u_abort_done_same:
  "done_at w r \<Longrightarrow> heap (snd (u_abort n w)) r = heap w r"
proof (cases n w rule: u_abort_cases)
  case (throws e)
  then show ?thesis by simp
next
  case (listener e w3)
  assume "done_at w r"
  then have "done_at (rolled_back n w) r" by (simp add: rolled_back_done)
  then show ?thesis
    using abort_requests_done_same[of "rolled_back n w" r "requests w"] listener
    by (simp add: rolled_back_fields)
next
  case (completed w3)
  assume "done_at w r"
  then have "done_at (rolled_back n w) r" by (simp add: rolled_back_done)
  then show ?thesis
    using abort_requests_done_same[of "rolled_back n w" r "requests w"] completed
    by (simp add: rolled_back_fields queueTask_def)
qed

lemma u_abort_marks:
  "fst (u_abort n w) = Ret () \<Longrightarrow> \<forall>x\<in>set (requests w). done_at (snd (u_abort n w)) (snd x)"
proof (cases n w rule: u_abort_cases)
  case (throws e)
  assume "fst (u_abort n w) = Ret ()"
  then show ?thesis using throws by simp
next
  case (listener e w3)
  assume "fst (u_abort n w) = Ret ()"
  then show ?thesis using listener by simp
next
  case (completed w3)
  then show ?thesis
    using abort_requests_marks[of "requests w" "rolled_back n w"]
    by (simp add: done_at_def queueTask_def)
qed

subsection \<open>The driver, case by case\<close>

lemma u_start_found:
  "shift_pending (requests w) (heap w) = (Some (operation, rid), q) \<Longrightarrow>
   u_start w =
     (case (if source (heap w rid) = None
            then run_plain operation rid (w\<lparr>started := True, requests := q\<rparr>)
            else run_sourced operation rid (w\<lparr>started := True, requests := q\<rparr>)) of
        (Exn e, w2) \<Rightarrow> (Exn e, w2)
      | (Ret _, w2) \<Rightarrow> (Ret (), queueTask RunStart w2))"
  by (simp add: u_start_def Let_def)

lemma u_start_drained:
  "shift_pending (requests w) (heap w) = (None, q) \<Longrightarrow>
   u_start w = finish (w\<lparr>started := True, requests := q\<rparr>)"
  by (simp add: u_start_def)

lemma error_event_eq:
  "(FakeEvent ''error'' True True)\<lparr>eventPath := [TDatabase, TTransaction]\<rparr> = error_event"
  by (simp add: FakeEvent_def error_event_def)

lemma success_event_eq:
  "(FakeEvent ''success'' False False)\<lparr>eventPath := [TDatabase, TTransaction]\<rparr> = success_event"
  by (simp add: FakeEvent_def success_event_def)

lemma dispatch_and_default_error:
  assumes "quiet (dispatch_chain w (TRequest rid) error_event)"
  shows "dispatch_and_default rid (FakeEvent ''error'' True True) (Some n) w =
     (if list_ex h_prevents (dispatch_chain w (TRequest rid) error_event)
      then (Ret (), observe (Dispatched (TRequest rid) error_event) w)
      else u_abort (Some n) (observe (Dispatched (TRequest rid) error_event) w))"
  using assms
  by (simp add: dispatch_and_default_def error_event_eq dispatchEvent_quiet)
     (simp add: error_event_def)

lemma u_start_throwing:
  assumes "shift_pending (requests w) (heap w) = (Some (operation, rid), q)"
    and "source (heap w rid) \<noteq> None"
    and "call_operation operation rid (w\<lparr>started := True, requests := q\<rparr>) = (Exn err, w2)"
  shows "u_start w =
     (case dispatch_and_default rid (FakeEvent ''error'' True True) (Some (err_name err))
             (reactivate (set_request rid
                (\<lambda>r. r\<lparr>readyState := Done, result := Undefined, req_error := Some err\<rparr>) w2)) of
        (Exn e, w4) \<Rightarrow> (Exn e, w4)
      | (Ret _, w4) \<Rightarrow> (Ret (), queueTask RunStart w4))"
proof -
  obtain s where "source (heap w rid) = Some s"
    using assms(2) by blast
  then show ?thesis
    using assms(1,3) by (simp add: u_start_found run_sourced_def)
qed

subsection \<open>A request whose operation throws\<close>

lemma failed_at_fields:
  assumes "call_operation operation rid w1 = (Exn err, w2)"
  shows "state (failed_at rid err w2) = (if state w1 = Inactive then Active else state w1)"
    and "error (failed_at rid err w2) = error w1"
    and "tasks (failed_at rid err w2) = tasks w1"
    and "listeners (failed_at rid err w2) = listeners w1"
    and "rollbackLog (failed_at rid err w2) = rollbackLog w2"
    and "requests (failed_at rid err w2) = requests w2"
    and "trace (failed_at rid err w2) =
           trace w1 @ [Executed rid, Dispatched (TRequest rid) error_event]"
    and "heap (failed_at rid err w2) rid =
           (heap w2 rid)\<lparr>readyState := Done, result := Undefined, req_error := Some err\<rparr>"
proof -
  have f: "operation_frame w1 w2" and t: "trace w2 = trace w1 @ [Executed rid]"
    using call_operation_frame[of w1 operation rid] call_operation_trace[of operation rid w1]
      assms by simp_all
  show "state (failed_at rid err w2) = (if state w1 = Inactive then Active else state w1)"
    using f by (simp add: failed_at_def observe_def reactivate_def set_request_def
        operation_frame_def)
  show "error (failed_at rid err w2) = error w1"
    using f by (simp add: failed_at_def observe_def reactivate_def set_request_def
        operation_frame_def)
  show "tasks (failed_at rid err w2) = tasks w1"
    using f by (simp add: failed_at_def observe_def reactivate_def set_request_def
        operation_frame_def)
  show "listeners (failed_at rid err w2) = listeners w1"
    using f by (simp add: failed_at_def observe_def reactivate_def set_request_def
        operation_frame_def static_def)
  show "rollbackLog (failed_at rid err w2) = rollbackLog w2"
    by (simp add: failed_at_def observe_def reactivate_def set_request_def)
  show "requests (failed_at rid err w2) = requests w2"
    by (simp add: failed_at_def observe_def reactivate_def set_request_def)
  show "trace (failed_at rid err w2) =
           trace w1 @ [Executed rid, Dispatched (TRequest rid) error_event]"
    using t by (simp add: failed_at_def observe_def reactivate_def set_request_def)
  show "heap (failed_at rid err w2) rid =
           (heap w2 rid)\<lparr>readyState := Done, result := Undefined, req_error := Some err\<rparr>"
    by (simp add: failed_at_def observe_def reactivate_def set_request_def)
qed

lemma u_start_failure:
  assumes "shift_pending (requests w) (heap w) = (Some (operation, rid), q)"
    and "source (heap w rid) \<noteq> None"
    and "call_operation operation rid (w\<lparr>started := True, requests := q\<rparr>) = (Exn err, w2)"
    and "quiet (dispatch_chain w (TRequest rid) error_event)"
  shows "u_start w =
     (if list_ex h_prevents (dispatch_chain w (TRequest rid) error_event)
      then (Ret (), queueTask RunStart (failed_at rid err w2))
      else (case u_abort (Some (err_name err)) (failed_at rid err w2) of
              (Exn e, w4) \<Rightarrow> (Exn e, w4)
            | (Ret _, w4) \<Rightarrow> (Ret (), queueTask RunStart w4)))"
proof -
  let ?w3 = "reactivate (set_request rid
                (\<lambda>r. r\<lparr>readyState := Done, result := Undefined, req_error := Some err\<rparr>) w2)"
  have "operation_frame (w\<lparr>started := True, requests := q\<rparr>) w2"
    using call_operation_frame[of "w\<lparr>started := True, requests := q\<rparr>" operation rid]
      assms(3) by simp
  then have "listeners ?w3 = listeners w"
    by (simp add: operation_frame_def static_def reactivate_def set_request_def)
  then have c: "dispatch_chain ?w3 (TRequest rid) error_event =
      dispatch_chain w (TRequest rid) error_event"
    by (rule dispatch_chain_listeners)
  then have "quiet (dispatch_chain ?w3 (TRequest rid) error_event)"
    using assms(4) by simp
  then have "dispatch_and_default rid (FakeEvent ''error'' True True) (Some (err_name err)) ?w3 =
     (if list_ex h_prevents (dispatch_chain w (TRequest rid) error_event)
      then (Ret (), failed_at rid err w2)
      else u_abort (Some (err_name err)) (failed_at rid err w2))"
    using c by (simp add: dispatch_and_default_error failed_at_def)
  then show ?thesis
    using u_start_throwing[OF assms(1,2,3)] by simp
qed

lemma u_abort_error:
  "first_throw (rev (rollbackLog w)) = None \<Longrightarrow>
   error (snd (u_abort n w)) = (case n of None \<Rightarrow> error w | Some x \<Rightarrow> Some (Error x))"
proof (cases n w rule: u_abort_cases)
  case (throws e)
  assume "first_throw (rev (rollbackLog w)) = None"
  then show ?thesis using throws by simp
next
  case (listener e w3)
  then show ?thesis by (simp add: heap_trace_only_def rolled_back_def)
next
  case (completed w3)
  then show ?thesis by (simp add: heap_trace_only_def rolled_back_def queueTask_def)
qed

subsection \<open>What each method adds to the trace\<close>

lemma no_tx_event_simps:
  "no_tx_event []" "no_tx_event (a @ b) = (no_tx_event a \<and> no_tx_event b)"
  "no_tx_event (x # t) = (\<not> is_tx_event x \<and> no_tx_event t)"
  "no_tx_event (compensations fs)"
  by (simp_all add: no_tx_event_def compensations_def list_all_iff) auto

lemma request_events_no_tx: "list_all is_request_event t \<Longrightarrow> no_tx_event t"
proof -
  have "is_request_event x \<Longrightarrow> \<not> is_tx_event x" for x
    by (cases x rule: is_request_event.cases) auto
  then show "list_all is_request_event t \<Longrightarrow> no_tx_event t"
    by (auto simp: no_tx_event_def list_all_iff)
qed

lemma no_tx_event_completes:
  "trace w1 = trace w @ rest \<Longrightarrow> no_tx_event rest \<Longrightarrow> completes w1 = completes w"
proof -
  have "is_complete x \<Longrightarrow> is_tx_event x" for x
    by (cases x rule: is_complete.cases) auto
  then have "no_tx_event rest \<Longrightarrow> filter is_complete rest = []"
    by (auto simp: no_tx_event_def list_all_iff filter_empty_conv)
  then show "trace w1 = trace w @ rest \<Longrightarrow> no_tx_event rest \<Longrightarrow> completes w1 = completes w"
    by (simp add: completes_def)
qed

lemma snd_rethrow:
  "snd (case p of (Exn e, w) \<Rightarrow> (Exn e, w) | (Ret u, w) \<Rightarrow> (x, w)) = snd p"
  by (auto split: prod.splits res.splits)

lemma u_abort_no_tx:
  "\<exists>rest. trace (snd (u_abort n w)) = trace w @ rest \<and> no_tx_event rest"
proof -
  obtain rest where "trace (snd (u_abort n w)) =
      trace w @ compensations (entries_called (rev (rollbackLog w))) @ rest"
    "list_all is_request_event rest"
    using u_abort_trace[of n w] by auto
  then show ?thesis
    using request_events_no_tx
    by (intro exI[of _ "compensations (entries_called (rev (rollbackLog w))) @ rest"])
       (simp add: no_tx_event_simps)
qed

lemma abort_no_tx: "\<exists>rest. trace (snd (abort w)) = trace w @ rest \<and> no_tx_event rest"
proof (cases "state w = Committing \<or> state w = Finished")
  case True
  then show ?thesis by (simp add: abort_def no_tx_event_simps)
next
  case False
  then show ?thesis
    using u_abort_no_tx[of None "w\<lparr>state := Active\<rparr>"] by (simp add: abort_def)
qed

lemma dispatch_and_default_no_tx:
  "\<exists>rest. trace (snd (dispatch_and_default rid ev d w)) = trace w @ rest \<and> no_tx_event rest"
proof -
  let ?ev = "ev\<lparr>eventPath := [TDatabase, TTransaction]\<rparr>"
  let ?w1 = "observe (Dispatched (TRequest rid) ?ev) w"
  obtain x ev1 where a: "dispatchEvent (TRequest rid) ?ev w = (x, ev1, ?w1)"
    by (cases "dispatchEvent (TRequest rid) ?ev w") (auto dest: dispatchEvent_world)
  have t1: "trace ?w1 = trace w @ [Dispatched (TRequest rid) ?ev]"
    by (simp add: observe_def)
  have ab: "\<exists>rest. trace (snd (u_abort n ?w1)) = trace w @ rest \<and> no_tx_event rest" for n
  proof -
    obtain r2 where "trace (snd (u_abort n ?w1)) = trace ?w1 @ r2" "no_tx_event r2"
      using u_abort_no_tx[of n ?w1] by auto
    then show ?thesis
      using t1 by (intro exI[of _ "[Dispatched (TRequest rid) ?ev] @ r2"])
        (simp add: no_tx_event_simps)
  qed
  have same: "\<exists>rest. trace ?w1 = trace w @ rest \<and> no_tx_event rest"
    using t1 by (intro exI[of _ "[Dispatched (TRequest rid) ?ev]"]) (simp add: no_tx_event_simps)
  have s: "snd (dispatch_and_default rid ev d w) = ?w1 \<or>
      (\<exists>n. snd (dispatch_and_default rid ev d w) = snd (u_abort n ?w1))"
    unfolding dispatch_and_default_def using a
    by (cases x; cases d) (auto simp: snd_rethrow)
  then show ?thesis
    using ab same by auto
qed

lemma run_sourced_no_tx:
  "\<exists>rest. trace (snd (run_sourced operation rid w)) = trace w @ rest \<and> no_tx_event rest"
proof -
  obtain x w1 where a: "call_operation operation rid w = (x, w1)"
    by (cases "call_operation operation rid w")
  have t1: "trace w1 = trace w @ [Executed rid]"
    using call_operation_trace[of operation rid w] a by simp
  have "\<exists>rest. trace (snd (dispatch_and_default rid ev d (reactivate (set_request rid f w1)))) =
      trace w @ rest \<and> no_tx_event rest" for ev d f
  proof -
    let ?w3 = "reactivate (set_request rid f w1)"
    have t3: "trace ?w3 = trace w @ [Executed rid]"
      using t1 by (simp add: reactivate_def set_request_def)
    obtain r2 where "trace (snd (dispatch_and_default rid ev d ?w3)) = trace ?w3 @ r2"
      "no_tx_event r2"
      using dispatch_and_default_no_tx[of rid ev d ?w3] by auto
    then show ?thesis
      using t3 by (intro exI[of _ "[Executed rid] @ r2"]) (simp add: no_tx_event_simps)
  qed
  then show ?thesis
    using a unfolding run_sourced_def Let_def by (cases x) simp_all
qed

lemma run_plain_no_tx:
  "\<exists>rest. trace (snd (run_plain operation rid w)) = trace w @ rest \<and> no_tx_event rest"
proof -
  have "trace (snd (run_plain operation rid w)) = trace w @ [Executed rid]"
    using call_operation_trace[of operation rid w]
    by (auto simp: run_plain_def split: prod.splits res.splits)
  then show ?thesis
    by (intro exI[of _ "[Executed rid]"]) (simp add: no_tx_event_simps)
qed

lemma finish_eq:
  "finish w =
     (if state w \<noteq> Finished then
        (if error w = None then
           (fst (invoke_listeners (dispatch_chain w TTransaction complete_event) complete_event),
            observe (Dispatched TTransaction complete_event) (w\<lparr>state := Finished\<rparr>))
         else (Ret (), w\<lparr>state := Finished\<rparr>))
      else (Ret (), w))"
proof -
  have "FakeEvent ''complete'' False False = complete_event"
    by (simp add: FakeEvent_def complete_event_def)
  then show ?thesis
    by (simp add: finish_def Let_def dispatchEvent_eq dispatch_chain_def split: prod.splits)
qed

lemma shift_pending_drained:
  "(fst (shift_pending q h) = None) = list_all (\<lambda>x. readyState (h (snd x)) = Done) q"
  by (induction q) auto

lemma shift_pending_None: "shift_pending q h = (None, q1) \<Longrightarrow> q1 = []"
  by (induction q) (auto split: if_splits)

lemma drained_iff: "drained w \<longleftrightarrow> fst (shift_pending (requests w) (heap w)) = None"
  by (simp add: drained_def done_at_def shift_pending_drained)

lemma u_start_when_drained:
  "drained w \<Longrightarrow> u_start w = finish (w\<lparr>started := True, requests := []\<rparr>)"
proof -
  assume "drained w"
  then obtain q where s: "shift_pending (requests w) (heap w) = (None, q)"
    by (cases "shift_pending (requests w) (heap w)") (simp add: drained_iff)
  then have "q = []" by (rule shift_pending_None)
  then show ?thesis using s by (simp add: u_start_drained)
qed

lemma u_start_not_drained_no_tx:
  assumes "\<not> drained w"
  shows "\<exists>rest. trace (snd (u_start w)) = trace w @ rest \<and> no_tx_event rest"
proof -
  obtain operation rid q where s:
    "shift_pending (requests w) (heap w) = (Some (operation, rid), q)"
    using assms by (cases "shift_pending (requests w) (heap w)") (auto simp: drained_iff)
  let ?w1 = "w\<lparr>started := True, requests := q\<rparr>"
  obtain y w2 where b:
    "(if source (heap w rid) = None then run_plain operation rid ?w1
      else run_sourced operation rid ?w1) = (y, w2)"
    by (cases "if source (heap w rid) = None then run_plain operation rid ?w1
      else run_sourced operation rid ?w1")
  have "\<exists>rest. trace w2 = trace ?w1 @ rest \<and> no_tx_event rest"
    using run_plain_no_tx[of operation rid ?w1] run_sourced_no_tx[of operation rid ?w1] b
    by (auto split: if_splits)
  then show ?thesis
    using s b by (cases y) (auto simp: u_start_found queueTask_def)
qed

subsection \<open>The error of the transaction is never unset\<close>

lemma u_abort_error_kept: "error w \<noteq> None \<Longrightarrow> error (snd (u_abort n w)) \<noteq> None"
proof (cases n w rule: u_abort_cases)
  case (throws e)
  assume "error w \<noteq> None"
  then show ?thesis using throws by simp
next
  case (listener e w3)
  assume "error w \<noteq> None"
  then show ?thesis
    using listener by (cases n) (simp_all add: heap_trace_only_def rolled_back_def)
next
  case (completed w3)
  assume "error w \<noteq> None"
  then show ?thesis
    using completed by (cases n) (simp_all add: heap_trace_only_def rolled_back_def queueTask_def)
qed

lemma dispatch_and_default_shape:
  "snd (dispatch_and_default rid ev d w) =
     observe (Dispatched (TRequest rid) (ev\<lparr>eventPath := [TDatabase, TTransaction]\<rparr>)) w \<or>
   (\<exists>n. snd (dispatch_and_default rid ev d w) =
     snd (u_abort n
       (observe (Dispatched (TRequest rid) (ev\<lparr>eventPath := [TDatabase, TTransaction]\<rparr>)) w)))"
proof -
  let ?ev = "ev\<lparr>eventPath := [TDatabase, TTransaction]\<rparr>"
  let ?w1 = "observe (Dispatched (TRequest rid) ?ev) w"
  obtain x ev1 where a: "dispatchEvent (TRequest rid) ?ev w = (x, ev1, ?w1)"
    by (cases "dispatchEvent (TRequest rid) ?ev w") (auto dest: dispatchEvent_world)
  show ?thesis
    unfolding dispatch_and_default_def using a
    by (cases x; cases d) (auto simp: snd_rethrow)
qed

lemma dispatch_and_default_error_kept:
  "error w \<noteq> None \<Longrightarrow> error (snd (dispatch_and_default rid ev d w)) \<noteq> None"
proof -
  let ?w1 = "observe (Dispatched (TRequest rid) (ev\<lparr>eventPath := [TDatabase, TTransaction]\<rparr>)) w"
  assume e: "error w \<noteq> None"
  then have "error ?w1 \<noteq> None" by (simp add: observe_def)
  then have "error (snd (u_abort n ?w1)) \<noteq> None" for n
    by (rule u_abort_error_kept)
  then show ?thesis
    using dispatch_and_default_shape[of rid ev d w] e by (auto simp: observe_def)
qed

lemma run_sourced_error_kept:
  assumes "error w \<noteq> None"
  shows "error (snd (run_sourced operation rid w)) \<noteq> None"
proof -
  obtain x w1 where a: "call_operation operation rid w = (x, w1)"
    by (cases "call_operation operation rid w")
  then have "error w1 = error w"
    using call_operation_frame[of w operation rid] by (simp add: operation_frame_def)
  then have "error (reactivate (set_request rid f w1)) \<noteq> None" for f
    using assms by (simp add: reactivate_def set_request_def)
  then have "error (snd (dispatch_and_default rid ev d (reactivate (set_request rid f w1)))) \<noteq> None"
    for ev d f
    by (rule dispatch_and_default_error_kept)
  then show ?thesis
    using a unfolding run_sourced_def Let_def by (cases x) simp_all
qed

lemma snd_then_queue:
  "snd (case p of (Exn e, w) \<Rightarrow> (Exn e, w) | (Ret u, w) \<Rightarrow> (Ret (), queueTask t w)) = snd p \<or>
   snd (case p of (Exn e, w) \<Rightarrow> (Exn e, w) | (Ret u, w) \<Rightarrow> (Ret (), queueTask t w)) =
     queueTask t (snd p)"
  by (auto split: prod.splits res.splits)

lemma u_start_error_kept:
  assumes "error w \<noteq> None"
  shows "error (snd (u_start w)) \<noteq> None"
proof (cases "drained w")
  case True
  then show ?thesis
    using assms by (auto simp: u_start_when_drained finish_eq observe_def)
next
  case False
  then obtain operation rid q where s:
    "shift_pending (requests w) (heap w) = (Some (operation, rid), q)"
    by (cases "shift_pending (requests w) (heap w)") (auto simp: drained_iff)
  let ?w1 = "w\<lparr>started := True, requests := q\<rparr>"
  let ?p = "if source (heap w rid) = None then run_plain operation rid ?w1
      else run_sourced operation rid ?w1"
  have "error ?w1 \<noteq> None" using assms by simp
  then have "error (snd ?p) \<noteq> None"
    using run_plain_frame[of ?w1 operation rid] run_sourced_error_kept[of ?w1 operation rid]
    by (simp add: operation_frame_def)
  then show ?thesis
    using snd_then_queue[where p = ?p and t = RunStart] s by (auto simp: u_start_found queueTask_def)
qed

lemma abort_error_kept: "error w \<noteq> None \<Longrightarrow> error (snd (abort w)) \<noteq> None"
  using u_abort_error_kept[of "w\<lparr>state := Active\<rparr>" None] by (simp add: abort_def)

lemma tick_error_kept: "error w \<noteq> None \<Longrightarrow> error (snd (tick w)) \<noteq> None"
proof (cases "tasks w")
  case Nil
  then show "error w \<noteq> None \<Longrightarrow> error (snd (tick w)) \<noteq> None" by (simp add: tick_def)
next
  case (Cons t ts)
  assume e: "error w \<noteq> None"
  show "error (snd (tick w)) \<noteq> None"
  proof (cases t)
    case RunStart
    then show ?thesis
      using Cons e u_start_error_kept[of "w\<lparr>tasks := ts\<rparr>"] by (simp add: tick_def run_task_def)
  next
    case FireAbort
    then show ?thesis
      using Cons e by (simp add: tick_def fire_abort_eq observe_def)
  qed
qed

lemma do_call_error_kept: "error w \<noteq> None \<Longrightarrow> error (do_call c w) \<noteq> None"
proof (cases c)
  case (CallExecRequestAsync obj)
  then show "error w \<noteq> None \<Longrightarrow> error (do_call c w) \<noteq> None"
    using u_execRequestAsync_frame[of w obj] by (simp add: operation_frame_def)
next
  case CallAbort
  then show "error w \<noteq> None \<Longrightarrow> error (do_call c w) \<noteq> None"
    by (simp add: abort_error_kept)
next
  case CallCommit
  then show "error w \<noteq> None \<Longrightarrow> error (do_call c w) \<noteq> None"
    by (simp add: commit_def)
next
  case (CallObjectStore name)
  then show "error w \<noteq> None \<Longrightarrow> error (do_call c w) \<noteq> None"
    by (simp add: objectStore_def Let_def split: option.splits)
next
  case CallStart
  then show "error w \<noteq> None \<Longrightarrow> error (do_call c w) \<noteq> None"
    by (simp add: u_start_error_kept)
next
  case Tick
  then show "error w \<noteq> None \<Longrightarrow> error (do_call c w) \<noteq> None"
    by (simp add: tick_error_kept)
next
  case (SetRawObjectStores db)
  then show "error w \<noteq> None \<Longrightarrow> error (do_call c w) \<noteq> None" by simp
next
  case (SetListeners ls)
  then show "error w \<noteq> None \<Longrightarrow> error (do_call c w) \<noteq> None" by simp
next
  case (PushRollbackLog f)
  then show "error w \<noteq> None \<Longrightarrow> error (do_call c w) \<noteq> None" by simp
qed

subsection \<open>The "complete" event\<close>

lemma u_start_completes:
  "completes (snd (u_start w)) = completes w \<or>
   (completes (snd (u_start w)) = Suc (completes w) \<and> drained w \<and> state w \<noteq> Finished \<and>
    error w = None \<and> state (snd (u_start w)) = Finished \<and> requests (snd (u_start w)) = [] \<and>
    error (snd (u_start w)) = None)"
proof (cases "drained w")
  case True
  then show ?thesis
    by (simp add: u_start_when_drained finish_eq observe_def completes_def complete_event_def)
next
  case False
  then show ?thesis
    using u_start_not_drained_no_tx[of w] no_tx_event_completes by blast
qed

lemma tick_completes:
  "completes (snd (tick w)) = completes w \<or>
   (completes (snd (tick w)) = Suc (completes w) \<and> state w \<noteq> Finished \<and>
    error w = None \<and> state (snd (tick w)) = Finished \<and> requests (snd (tick w)) = [] \<and>
    error (snd (tick w)) = None)"
proof (cases "tasks w")
  case Nil
  then show ?thesis by (simp add: tick_def)
next
  case (Cons t ts)
  show ?thesis
  proof (cases t)
    case RunStart
    then show ?thesis
      using Cons u_start_completes[of "w\<lparr>tasks := ts\<rparr>"]
      by (auto simp: tick_def run_task_def completes_def)
  next
    case FireAbort
    then show ?thesis
      using Cons by (simp add: tick_def fire_abort_eq observe_def completes_def abort_event_def)
  qed
qed

lemma do_call_completes:
  "completes (do_call c w) = completes w \<or>
   (completes (do_call c w) = Suc (completes w) \<and> state w \<noteq> Finished \<and>
    error w = None \<and> state (do_call c w) = Finished \<and> requests (do_call c w) = [] \<and>
    error (do_call c w) = None)"
proof (cases c)
  case (CallExecRequestAsync obj)
  then show ?thesis
    using u_execRequestAsync_trace[of obj w] by (simp add: completes_def)
next
  case CallAbort
  then show ?thesis
    using abort_no_tx[of w] no_tx_event_completes by auto
next
  case CallCommit
  then show ?thesis by (simp add: commit_def completes_def)
next
  case (CallObjectStore name)
  then show ?thesis
    by (simp add: objectStore_def Let_def completes_def split: option.splits)
next
  case CallStart
  then show ?thesis using u_start_completes[of w] by auto
next
  case Tick
  then show ?thesis using tick_completes[of w] by auto
next
  case (SetRawObjectStores db)
  then show ?thesis by (simp add: completes_def)
next
  case (SetListeners ls)
  then show ?thesis by (simp add: completes_def)
next
  case (PushRollbackLog f)
  then show ?thesis by (simp add: completes_def)
qed

lemma settled_do_call:
  assumes "state w = Finished" and "requests w = []"
  shows "requests (do_call c w) = [] \<and> error (do_call c w) = error w \<and>
         completes (do_call c w) = completes w"
proof (cases c)
  case (CallExecRequestAsync obj)
  then show ?thesis using assms by (simp add: u_execRequestAsync_def)
next
  case CallAbort
  then show ?thesis using assms by (simp add: abort_def)
next
  case CallCommit
  then show ?thesis using assms by (simp add: commit_def)
next
  case (CallObjectStore name)
  then show ?thesis using assms by (simp add: objectStore_def)
next
  case CallStart
  have "drained w" using assms by (simp add: drained_def)
  then show ?thesis
    using CallStart assms by (simp add: u_start_when_drained finish_eq completes_def)
next
  case Tick
  show ?thesis
  proof (cases "tasks w")
    case Nil
    then show ?thesis using Tick by (simp add: tick_def assms)
  next
    case (Cons t ts)
    have d: "drained (w\<lparr>tasks := ts\<rparr>)" using assms by (simp add: drained_def done_at_def)
    show ?thesis
    proof (cases t)
      case RunStart
      have "run_task RunStart (w\<lparr>tasks := ts\<rparr>) = u_start (w\<lparr>tasks := ts\<rparr>)"
        by (simp add: run_task_def)
      then show ?thesis
        using Tick Cons assms d RunStart
        by (simp add: tick_def u_start_when_drained finish_eq completes_def)
    next
      case FireAbort
      then show ?thesis
        using Tick Cons assms
        by (simp add: tick_def fire_abort_eq observe_def abort_event_def completes_def)
    qed
  qed
next
  case (SetRawObjectStores db)
  then show ?thesis using assms by (simp add: completes_def)
next
  case (SetListeners ls)
  then show ?thesis using assms by (simp add: completes_def)
next
  case (PushRollbackLog f)
  then show ?thesis using assms by (simp add: completes_def)
qed

lemma do_call_complete_once: "complete_once w \<Longrightarrow> complete_once (do_call c w)"
proof -
  assume "complete_once w"
  then consider (none) "completes w = 0"
    | (one) "completes w = 1" "state w = Finished" "requests w = []" "error w = None"
    by (auto simp: complete_once_def)
  then show ?thesis
  proof cases
    case none
    then show ?thesis
      using do_call_completes[of c w] by (auto simp: complete_once_def)
  next
    case one
    have "state (do_call c w) = Finished"
      using do_call_state[of w c] one(2) transition_Finished by simp
    then show ?thesis
      using settled_do_call[OF one(2,3), of c] one(1,4) by (simp add: complete_once_def)
  qed
qed

lemma run_complete_once: "complete_once w \<Longrightarrow> complete_once (run cs w)"
proof (induction cs arbitrary: w)
  case Nil
  then show ?case by (simp add: run_Nil)
next
  case (Cons c cs)
  then show ?case
    using do_call_complete_once[of w c] by (simp add: run_Cons)
qed

lemma new_complete_once: "complete_once (FDBTransaction storeNames m db ls)"
  by (simp add: complete_once_def completes_def FDBTransaction_def)

lemma no_complete_after:
  "error w \<noteq> None \<or> state w = Finished \<Longrightarrow> completes (run cs w) = completes w"
proof (induction cs arbitrary: w)
  case Nil
  then show ?case by (simp add: run_Nil)
next
  case (Cons c cs)
  have k: "error (do_call c w) \<noteq> None \<or> state (do_call c w) = Finished"
    using Cons.prems do_call_error_kept[of w c] do_call_state[of w c] transition_Finished
    by auto
  have "completes (do_call c w) = completes w"
    using Cons.prems do_call_completes[of c w] by auto
  then show ?case
    using Cons.IH[OF k] by (simp add: run_Cons)
qed

subsection \<open>The trace only grows\<close>

lemma u_start_trace_grows: "\<exists>rest. trace (snd (u_start w)) = trace w @ rest"
proof (cases "drained w")
  case True
  then show ?thesis
    by (simp add: u_start_when_drained finish_eq observe_def)
next
  case False
  then show ?thesis
    using u_start_not_drained_no_tx[of w] by blast
qed

lemma tick_trace_grows: "\<exists>rest. trace (snd (tick w)) = trace w @ rest"
proof (cases "tasks w")
  case Nil
  then show ?thesis by (simp add: tick_def)
next
  case (Cons t ts)
  show ?thesis
  proof (cases t)
    case RunStart
    then show ?thesis
      using Cons u_start_trace_grows[of "w\<lparr>tasks := ts\<rparr>"] by (simp add: tick_def run_task_def)
  next
    case FireAbort
    then show ?thesis
      using Cons by (simp add: tick_def fire_abort_eq observe_def)
  qed
qed

lemma do_call_trace_grows: "\<exists>rest. trace (do_call c w) = trace w @ rest"
proof (cases c)
  case (CallExecRequestAsync obj)
  then show ?thesis using u_execRequestAsync_trace[of obj w] by simp
next
  case CallAbort
  then show ?thesis using abort_no_tx[of w] by auto
next
  case CallCommit
  then show ?thesis by (simp add: commit_def)
next
  case (CallObjectStore name)
  then show ?thesis by (simp add: objectStore_def Let_def split: option.splits)
next
  case CallStart
  then show ?thesis using u_start_trace_grows[of w] by simp
next
  case Tick
  then show ?thesis using tick_trace_grows[of w] by simp
next
  case (SetRawObjectStores db)
  then show ?thesis by simp
next
  case (SetListeners ls)
  then show ?thesis by simp
next
  case (PushRollbackLog f)
  then show ?thesis by simp
qed

subsection \<open>A closed transaction\<close>

lemma do_call_closed: "closed w \<Longrightarrow> closed (do_call c w)"
  using do_call_state[of w c] by (auto simp: closed_def transition_def)

lemma u_execRequestAsync_inactive:
  "state w \<noteq> Active \<Longrightarrow> u_execRequestAsync obj w = (Exn TransactionInactiveError, w)"
  by (simp add: u_execRequestAsync_def)

lemma run_action_inactive:
  "state w \<noteq> Active \<Longrightarrow>
   heap (snd (run_action a w)) = heap w \<and> requests (snd (run_action a w)) = requests w \<and>
   state (snd (run_action a w)) = state w"
  by (cases a) (simp_all add: run_action_def u_execRequestAsync_inactive)

lemma run_actions_inactive:
  "state w \<noteq> Active \<Longrightarrow>
   heap (snd (run_actions as w)) = heap w \<and> requests (snd (run_actions as w)) = requests w"
proof (induction as arbitrary: w)
  case Nil
  show ?case by simp
next
  case (Cons a as)
  obtain x w1 where a: "run_action a w = (x, w1)"
    by (cases "run_action a w")
  have f: "heap w1 = heap w" "requests w1 = requests w" "state w1 \<noteq> Active"
    using run_action_inactive[OF Cons.prems, of a] a Cons.prems by simp_all
  show ?case
  proof (cases x)
    case (Ret u)
    then show ?thesis using a f Cons.IH[of w1] by simp
  next
    case (Exn e)
    then show ?thesis using a f by simp
  qed
qed

lemma call_operation_inactive:
  assumes "state w \<noteq> Active"
  shows "heap (snd (call_operation operation rid w)) = heap w \<and>
         requests (snd (call_operation operation rid w)) = requests w"
proof -
  let ?w0 = "observe (Executed rid) w"
  have "state ?w0 \<noteq> Active" using assms by (simp add: observe_def)
  then have "heap (snd (run_actions (op_acts operation) ?w0)) = heap w \<and>
      requests (snd (run_actions (op_acts operation) ?w0)) = requests w"
    using run_actions_inactive[of ?w0 "op_acts operation"] by (simp add: observe_def)
  then show ?thesis
    by (auto simp: call_operation_def split: prod.splits res.splits outcome.splits)
qed

lemma u_abort_requests: "requests (snd (u_abort n w)) = requests w"
proof (cases n w rule: u_abort_cases)
  case (throws e)
  then show ?thesis by simp
next
  case (listener e w3)
  then show ?thesis by (simp add: heap_trace_only_def rolled_back_fields)
next
  case (completed w3)
  then show ?thesis by (simp add: heap_trace_only_def rolled_back_fields queueTask_def)
qed

lemma u_abort_named:
  "heap (snd (u_abort (Some x) w)) = heap w \<or> error (snd (u_abort (Some x) w)) \<noteq> None"
proof (cases "Some x" w rule: u_abort_cases)
  case (throws e)
  then show ?thesis by simp
next
  case (listener e w3)
  then show ?thesis by (simp add: heap_trace_only_def rolled_back_def)
next
  case (completed w3)
  then show ?thesis by (simp add: heap_trace_only_def rolled_back_def queueTask_def)
qed

lemma dispatch_and_default_named:
  "snd (dispatch_and_default rid ev d w) =
     observe (Dispatched (TRequest rid) (ev\<lparr>eventPath := [TDatabase, TTransaction]\<rparr>)) w \<or>
   (\<exists>x. snd (dispatch_and_default rid ev d w) =
     snd (u_abort (Some x)
       (observe (Dispatched (TRequest rid) (ev\<lparr>eventPath := [TDatabase, TTransaction]\<rparr>)) w)))"
proof -
  let ?ev = "ev\<lparr>eventPath := [TDatabase, TTransaction]\<rparr>"
  let ?w1 = "observe (Dispatched (TRequest rid) ?ev) w"
  obtain x ev1 where a: "dispatchEvent (TRequest rid) ?ev w = (x, ev1, ?w1)"
    by (cases "dispatchEvent (TRequest rid) ?ev w") (auto dest: dispatchEvent_world)
  show ?thesis
    unfolding dispatch_and_default_def using a
    by (cases x; cases d) (auto simp: snd_rethrow)
qed

lemma dispatch_and_default_waiting:
  "(heap (snd (dispatch_and_default rid ev d w)) = heap w \<or>
    error (snd (dispatch_and_default rid ev d w)) \<noteq> None) \<and>
   requests (snd (dispatch_and_default rid ev d w)) = requests w"
proof -
  let ?w1 = "observe (Dispatched (TRequest rid) (ev\<lparr>eventPath := [TDatabase, TTransaction]\<rparr>)) w"
  have h: "heap ?w1 = heap w" "requests ?w1 = requests w"
    by (simp_all add: observe_def)
  have u: "(heap (snd (u_abort (Some x) ?w1)) = heap w \<or> error (snd (u_abort (Some x) ?w1)) \<noteq> None) \<and>
      requests (snd (u_abort (Some x) ?w1)) = requests w" for x
    using u_abort_named[of x ?w1] u_abort_requests[of "Some x" ?w1] h by simp
  consider (same) "snd (dispatch_and_default rid ev d w) = ?w1"
    | (aborted) x where "snd (dispatch_and_default rid ev d w) = snd (u_abort (Some x) ?w1)"
    using dispatch_and_default_named[of rid ev d w] by blast
  then show ?thesis
  proof cases
    case same
    then show ?thesis using h by simp
  next
    case (aborted x)
    then show ?thesis using u[of x] by simp
  qed
qed

lemma shift_pending_Some:
  "shift_pending q0 h = (Some r, q) \<Longrightarrow>
   \<exists>pre. q0 = pre @ r # q \<and> list_all (\<lambda>x. readyState (h (snd x)) = Done) pre \<and>
         readyState (h (snd r)) \<noteq> Done"
proof (induction q0)
  case Nil
  then show ?case by simp
next
  case (Cons x q0)
  show ?case
  proof (cases "readyState (h (snd x)) \<noteq> Done")
    case True
    then show ?thesis
      using Cons.prems by (intro exI[of _ "[]"]) auto
  next
    case False
    then have "shift_pending q0 h = (Some r, q)"
      using Cons.prems by simp
    then obtain pre where "q0 = pre @ r # q"
      "list_all (\<lambda>x. readyState (h (snd x)) = Done) pre" "readyState (h (snd r)) \<noteq> Done"
      using Cons.IH by blast
    then show ?thesis
      using False by (intro exI[of _ "x # pre"]) simp
  qed
qed

lemma run_sourced_executes:
  "\<exists>rest. trace (snd (run_sourced operation rid w)) = trace w @ Executed rid # rest \<and>
          no_tx_event rest"
proof -
  obtain x w1 where a: "call_operation operation rid w = (x, w1)"
    by (cases "call_operation operation rid w")
  have t1: "trace w1 = trace w @ [Executed rid]"
    using call_operation_trace[of operation rid w] a by simp
  have "\<exists>rest. trace (snd (dispatch_and_default rid ev d (reactivate (set_request rid f w1)))) =
      trace w @ Executed rid # rest \<and> no_tx_event rest" for ev d f
  proof -
    let ?w3 = "reactivate (set_request rid f w1)"
    have t3: "trace ?w3 = trace w @ [Executed rid]"
      using t1 by (simp add: reactivate_def set_request_def)
    obtain r2 where "trace (snd (dispatch_and_default rid ev d ?w3)) = trace ?w3 @ r2"
      "no_tx_event r2"
      using dispatch_and_default_no_tx[of rid ev d ?w3] by auto
    then show ?thesis
      using t3 by (intro exI[of _ r2]) simp
  qed
  then show ?thesis
    using a unfolding run_sourced_def Let_def by (cases x) simp_all
qed

lemma u_start_found_parts:
  assumes "shift_pending (requests w) (heap w) = (Some (operation, rid), q)"
    and "p = (if source (heap w rid) = None
          then run_plain operation rid (w\<lparr>started := True, requests := q\<rparr>)
          else run_sourced operation rid (w\<lparr>started := True, requests := q\<rparr>))"
  shows "snd (u_start w) = snd p \<or> snd (u_start w) = queueTask RunStart (snd p)"
  using snd_then_queue[where t = RunStart and p = p] assms by (simp add: u_start_found)

lemma u_start_executes:
  assumes "shift_pending (requests w) (heap w) = (Some (operation, rid), q)"
  shows "\<exists>rest. trace (snd (u_start w)) = trace w @ Executed rid # rest \<and> no_tx_event rest"
proof -
  let ?w1 = "w\<lparr>started := True, requests := q\<rparr>"
  define p where "p = (if source (heap w rid) = None then run_plain operation rid ?w1
          else run_sourced operation rid ?w1)"
  note p = p_def u_start_found_parts[OF assms p_def]
  have "trace (snd (run_plain operation rid ?w1)) = trace ?w1 @ [Executed rid]"
    using call_operation_trace[of operation rid ?w1]
    by (auto simp: run_plain_def split: prod.splits res.splits)
  then have "\<exists>rest. trace (snd p) = trace w @ Executed rid # rest \<and> no_tx_event rest"
    using run_sourced_executes[of operation rid ?w1] p(1)
    by (auto simp: no_tx_event_simps)
  then show ?thesis
    using p(2) by (auto simp: queueTask_def)
qed

lemma no_tx_event_no_complete: "no_tx_event t \<Longrightarrow> filter is_complete t = []"
proof -
  have "is_complete x \<Longrightarrow> is_tx_event x" for x
    by (cases x rule: is_complete.cases) auto
  then show "no_tx_event t \<Longrightarrow> filter is_complete t = []"
    by (auto simp: no_tx_event_def list_all_iff filter_empty_conv)
qed

lemma waiting_cong:
  "heap w1 = heap w \<Longrightarrow> requests w1 = requests w \<Longrightarrow> waiting w1 rid = waiting w rid"
  by (simp add: waiting_def done_at_def)

lemma u_start_closed_waiting:
  assumes "closed w" and "waiting w rid"
  shows "\<exists>rest. trace (snd (u_start w)) = trace w @ rest \<and> filter is_complete rest = [] \<and>
     (Executed rid \<in> set rest \<or> waiting (snd (u_start w)) rid \<or>
      error (snd (u_start w)) \<noteq> None)"
proof -
  have nd: "\<not> drained w"
    using assms(2) by (auto simp: waiting_def drained_def list_all_iff)
  then obtain operation r q where s:
    "shift_pending (requests w) (heap w) = (Some (operation, r), q)"
    by (cases "shift_pending (requests w) (heap w)") (auto simp: drained_iff)
  let ?w1 = "w\<lparr>started := True, requests := q\<rparr>"
  obtain rest where t: "trace (snd (u_start w)) = trace w @ Executed r # rest" "no_tx_event rest"
    using u_start_executes[OF s] by blast
  have nc: "filter is_complete (Executed r # rest) = []"
    using no_tx_event_no_complete[OF t(2)] by simp
  show ?thesis
  proof (cases "rid = r")
    case True
    then show ?thesis
      using t(1) nc by (intro exI[of _ "Executed r # rest"]) simp
  next
    case False
    obtain pre where pre: "requests w = pre @ (operation, r) # q"
      "list_all (\<lambda>x. readyState (heap w (snd x)) = Done) pre"
      using shift_pending_Some[OF s] by auto
    have "rid \<notin> snd ` set pre"
      using pre(2) assms(2) by (auto simp: waiting_def done_at_def list_all_iff)
    then have "rid \<in> snd ` set q"
      using assms(2) pre(1) False by (auto simp: waiting_def)
    then have w1: "waiting ?w1 rid"
      using assms(2) by (simp add: waiting_def done_at_def)
    have na: "state ?w1 \<noteq> Active"
      using assms(1) by (auto simp: closed_def)
    define p where "p = (if source (heap w r) = None then run_plain operation r ?w1
            else run_sourced operation r ?w1)"
    note p = p_def u_start_found_parts[OF s p_def]
    have plain: "waiting (snd (run_plain operation r ?w1)) rid"
    proof -
      have "snd (run_plain operation r ?w1) = snd (call_operation operation r ?w1)"
        by (auto simp: run_plain_def split: prod.splits res.splits)
      then show ?thesis
        using call_operation_inactive[OF na, of operation r] w1 waiting_cong by metis
    qed
    have sourced: "waiting (snd (run_sourced operation r ?w1)) rid \<or>
        error (snd (run_sourced operation r ?w1)) \<noteq> None"
    proof -
      obtain x w2 where a: "call_operation operation r ?w1 = (x, w2)"
        by (cases "call_operation operation r ?w1")
      have h2: "heap w2 = heap ?w1" "requests w2 = requests ?w1"
        using call_operation_inactive[OF na, of operation r] a by simp_all
      have "waiting (snd (dispatch_and_default r ev d (reactivate (set_request r f w2)))) rid \<or>
          error (snd (dispatch_and_default r ev d (reactivate (set_request r f w2)))) \<noteq> None"
        for ev d f
      proof -
        let ?w3 = "reactivate (set_request r f w2)"
        have "waiting ?w3 rid"
          using w1 h2 False
          by (simp add: waiting_def done_at_def reactivate_def set_request_def)
        then show ?thesis
          using dispatch_and_default_waiting[of r ev d ?w3] waiting_cong by metis
      qed
      then show ?thesis
        using a unfolding run_sourced_def Let_def by (cases x) simp_all
    qed
    have "waiting (snd p) rid \<or> error (snd p) \<noteq> None"
      using plain sourced p(1) by auto
    then have "waiting (snd (u_start w)) rid \<or> error (snd (u_start w)) \<noteq> None"
      using p(2) by (auto simp: queueTask_def waiting_def done_at_def)
    then show ?thesis
      using t(1) nc by (intro exI[of _ "Executed r # rest"]) simp
  qed
qed

lemma do_call_closed_waiting:
  assumes "closed w" and "waiting w rid"
  shows "\<exists>rest. trace (do_call c w) = trace w @ rest \<and> filter is_complete rest = [] \<and>
     (Executed rid \<in> set rest \<or> waiting (do_call c w) rid \<or> error (do_call c w) \<noteq> None)"
proof -
  have na: "state w \<noteq> Active"
    using assms(1) by (auto simp: closed_def)
  have same: ?thesis if "do_call c w = w"
    using that assms(2) by simp
  show ?thesis
  proof (cases c)
    case (CallExecRequestAsync obj)
    then show ?thesis using same na by (simp add: u_execRequestAsync_inactive)
  next
    case CallAbort
    then show ?thesis using same assms(1) by (simp add: abort_def closed_def)
  next
    case CallCommit
    then show ?thesis using same na by (simp add: commit_def)
  next
    case (CallObjectStore name)
    then show ?thesis using same na by (simp add: objectStore_def)
  next
    case CallStart
    then show ?thesis using u_start_closed_waiting[OF assms] by simp
  next
    case Tick
    show ?thesis
    proof (cases "tasks w")
      case Nil
      then show ?thesis using same Tick by (simp add: tick_def)
    next
      case (Cons t ts)
      have cw: "closed (w\<lparr>tasks := ts\<rparr>)" "waiting (w\<lparr>tasks := ts\<rparr>) rid"
        using assms by (simp_all add: closed_def waiting_def done_at_def)
      show ?thesis
      proof (cases t)
        case RunStart
        have "run_task RunStart (w\<lparr>tasks := ts\<rparr>) = u_start (w\<lparr>tasks := ts\<rparr>)"
          by (simp add: run_task_def)
        then show ?thesis
          using Tick Cons RunStart u_start_closed_waiting[OF cw] by (simp add: tick_def)
      next
        case FireAbort
        then show ?thesis
          using Tick Cons assms(2)
          by (simp add: tick_def fire_abort_eq observe_def abort_event_def waiting_def
              done_at_def)
      qed
    qed
  next
    case (SetRawObjectStores db)
    then show ?thesis using assms(2) by (simp add: waiting_def done_at_def)
  next
    case (SetListeners ls)
    then show ?thesis using assms(2) by (simp add: waiting_def done_at_def)
  next
    case (PushRollbackLog f)
    then show ?thesis using assms(2) by (simp add: waiting_def done_at_def)
  qed
qed

lemma takeWhile_no_complete:
  "\<forall>x\<in>set t. \<not> is_complete x \<Longrightarrow> takeWhile (\<lambda>x. \<not> is_complete x) t = t"
  by (induction t) simp_all

lemma executed_first_append: "executed_first t rid \<Longrightarrow> executed_first (t @ ext) rid"
proof (cases "\<forall>x\<in>set t. \<not> is_complete x")
  case True
  assume "executed_first t rid"
  then show ?thesis
    using True takeWhile_no_complete[of t] by (simp add: executed_first_def takeWhile_append2)
next
  case False
  assume e: "executed_first t rid"
  obtain x where "x \<in> set t" "\<not> \<not> is_complete x"
    using False by blast
  then have "takeWhile (\<lambda>x. \<not> is_complete x) (t @ ext) = takeWhile (\<lambda>x. \<not> is_complete x) t"
    by (rule takeWhile_append1)
  then show ?thesis
    using e by (simp add: executed_first_def)
qed

lemma executed_first_no_complete:
  "filter is_complete t = [] \<Longrightarrow> executed_first t rid = (Executed rid \<in> set t)"
proof -
  assume "filter is_complete t = []"
  then have "\<forall>x\<in>set t. \<not> is_complete x"
    by (simp add: filter_empty_conv)
  then have "takeWhile (\<lambda>x. \<not> is_complete x) t = t"
    by (rule takeWhile_no_complete)
  then show ?thesis
    by (simp only: executed_first_def)
qed

lemma do_call_served:
  assumes "closed w" and "served rid t w"
  shows "\<exists>ext. trace (do_call c w) = trace w @ ext \<and> served rid (t @ ext) (do_call c w)"
proof -
  consider (executed) "executed_first t rid"
    | (waits) "filter is_complete t = []" "waiting w rid"
    | (failed) "filter is_complete t = []" "error w \<noteq> None"
    using assms(2) by (auto simp: served_def)
  then show ?thesis
  proof cases
    case executed
    obtain ext where "trace (do_call c w) = trace w @ ext"
      using do_call_trace_grows[of c w] by blast
    then show ?thesis
      using executed executed_first_append[of t rid ext] by (auto simp: served_def)
  next
    case waits
    obtain ext where e: "trace (do_call c w) = trace w @ ext" "filter is_complete ext = []"
      "Executed rid \<in> set ext \<or> waiting (do_call c w) rid \<or> error (do_call c w) \<noteq> None"
      using do_call_closed_waiting[OF assms(1) waits(2), of c] by blast
    have n: "filter is_complete (t @ ext) = []"
      using waits(1) e(2) by simp
    then have "executed_first (t @ ext) rid = (Executed rid \<in> set (t @ ext))"
      by (rule executed_first_no_complete)
    then have "served rid (t @ ext) (do_call c w)"
      using n e(3) unfolding served_def by auto
    then show ?thesis
      using e(1) by blast
  next
    case failed
    obtain ext where e: "trace (do_call c w) = trace w @ ext"
      using do_call_trace_grows[of c w] by blast
    have "completes (run [c] w) = completes w"
      using failed(2) no_complete_after by blast
    then have "completes (do_call c w) = completes w"
      by (simp add: run_Cons run_Nil)
    then have "filter is_complete ext = []"
      using e by (simp add: completes_def)
    then have "served rid (t @ ext) (do_call c w)"
      using failed do_call_error_kept[of w c] by (simp add: served_def)
    then show ?thesis
      using e by blast
  qed
qed

lemma run_served:
  "closed w \<Longrightarrow> served rid t w \<Longrightarrow>
   \<exists>ext. trace (run cs w) = trace w @ ext \<and> served rid (t @ ext) (run cs w)"
proof (induction cs arbitrary: w t)
  case Nil
  then show ?case by (simp add: run_Nil)
next
  case (Cons c cs)
  obtain e1 where e1: "trace (do_call c w) = trace w @ e1" "served rid (t @ e1) (do_call c w)"
    using do_call_served[OF Cons.prems, of c] by blast
  have "closed (do_call c w)"
    using Cons.prems(1) by (rule do_call_closed)
  then obtain e2 where e2: "trace (run cs (do_call c w)) = trace (do_call c w) @ e2"
    "served rid ((t @ e1) @ e2) (run cs (do_call c w))"
    using Cons.IH[OF _ e1(2)] by blast
  show ?case
    using e1(1) e2 by (intro exI[of _ "e1 @ e2"]) (simp add: run_Cons)
qed

lemma run_trace_grows: "\<exists>ext. trace (run cs w) = trace w @ ext"
proof (induction cs arbitrary: w)
  case Nil
  then show ?case by (simp add: run_Nil)
next
  case (Cons c cs)
  obtain e1 where "trace (do_call c w) = trace w @ e1"
    using do_call_trace_grows by blast
  moreover obtain e2 where "trace (run cs (do_call c w)) = trace (do_call c w) @ e2"
    using Cons.IH by blast
  ultimately show ?case
    by (simp add: run_Cons)
qed

subsection \<open>The order of requests\<close>

lemma dispatched_on_append: "dispatched_on (t @ u) = dispatched_on t @ dispatched_on u"
  by (induction t rule: dispatched_on.induct) simp_all

lemma executed_on_append: "executed_on (t @ u) = executed_on t @ executed_on u"
  by (induction t rule: executed_on.induct) simp_all

lemma dispatched_on_compensations: "dispatched_on (compensations fs) = []"
  by (induction fs) (simp_all add: compensations_def)

lemma executed_on_compensations: "executed_on (compensations fs) = []"
  by (induction fs) (simp_all add: compensations_def)

lemma executed_on_request_events: "list_all is_request_event t \<Longrightarrow> executed_on t = []"
proof (induction t)
  case Nil
  show ?case by simp
next
  case (Cons x t)
  then show ?case by (cases x rule: is_request_event.cases) simp_all
qed

lemma pending_queue_cong:
  "requests w1 = requests w \<Longrightarrow> heap w1 = heap w \<Longrightarrow> pending_queue w1 = pending_queue w"
  by (simp add: pending_queue_def done_at_def)

lemma in_order_cong:
  assumes "dispatched_on (trace w1) = dispatched_on (trace w)" "requests w1 = requests w"
    "heap w1 = heap w" "next_request w1 = next_request w"
  shows "in_order F w1 = in_order F w"
  using assms pending_queue_cong[of w1 w] by (simp add: in_order_def)

lemma in_order_distinct: "in_order F w \<Longrightarrow> distinct (dispatched_on (trace w) @ F @ pending_queue w)"
  by (simp add: in_order_def del: distinct_append)

lemma in_order_bound:
  "in_order F w \<Longrightarrow> r \<in> set (dispatched_on (trace w) @ F @ pending_queue w) \<Longrightarrow>
   r < next_request w"
proof -
  assume "in_order F w" and r: "r \<in> set (dispatched_on (trace w) @ F @ pending_queue w)"
  then have "dispatched_on (trace w) @ F @ pending_queue w = [0..<next_request w]"
    by (simp add: in_order_def)
  then have "r \<in> set [0..<next_request w]"
    using r by metis
  then show ?thesis by simp
qed

lemma u_execRequestAsync_new:
  "state w = Active \<Longrightarrow>
   u_execRequestAsync (RequestObj (Some s) operation None) w =
     (Ret (next_request w),
      w\<lparr>heap := (heap w)(next_request w :=
              FDBRequest\<lparr>source := Some s, transaction := src_transaction s\<rparr>),
        next_request := Suc (next_request w),
        requests := requests w @ [(operation, next_request w)]\<rparr>)"
  by (simp add: u_execRequestAsync_def)

lemma u_execRequestAsync_in_order:
  assumes "ok_obj obj" and "in_order F w"
  shows "in_order F (snd (u_execRequestAsync obj w))"
proof (cases "state w = Active")
  case False
  then show ?thesis using assms(2) by (simp add: u_execRequestAsync_inactive)
next
  case True
  obtain s operation where obj: "obj = RequestObj (Some s) operation None"
    and ok: "ok_operation operation"
    using assms(1) by (cases obj) auto
  let ?n = "next_request w"
  let ?w1 = "w\<lparr>heap := (heap w)(?n := FDBRequest\<lparr>source := Some s, transaction := src_transaction s\<rparr>),
        next_request := Suc ?n, requests := requests w @ [(operation, ?n)]\<rparr>"
  have e: "snd (u_execRequestAsync obj w) = ?w1"
    using True obj by (simp add: u_execRequestAsync_new)
  have b: "\<forall>x\<in>set (requests w). snd x < ?n"
    using assms(2) by (auto simp: in_order_def list_all_iff)
  have "filter (\<lambda>r. \<not> done_at ?w1 r) (map snd (requests w)) =
      filter (\<lambda>r. \<not> done_at w r) (map snd (requests w))"
    using b by (intro filter_cong) (auto simp: done_at_def)
  moreover have "\<not> done_at ?w1 ?n"
    by (simp add: done_at_def FDBRequest_def)
  ultimately have p: "pending_queue ?w1 = pending_queue w @ [?n]"
    by (simp add: pending_queue_def)
  have "dispatched_on (trace ?w1) @ F @ pending_queue ?w1 = [0..<next_request ?w1]"
    using assms(2) p by (simp add: in_order_def)
  moreover have "\<forall>r<next_request ?w1. source (heap ?w1 r) \<noteq> None"
    using assms(2) by (auto simp: in_order_def less_Suc_eq)
  moreover have "list_all (\<lambda>x. ok_operation (fst x) \<and> snd x < next_request ?w1) (requests ?w1)"
    using assms(2) ok by (auto simp: in_order_def list_all_iff less_Suc_eq)
  ultimately show ?thesis
    unfolding e in_order_def by blast
qed

lemma run_action_in_order:
  assumes "ok_action a" and "in_order F w"
  shows "in_order F (snd (run_action a w))"
proof (cases a)
  case (ExecRequestAsync obj)
  then have "ok_obj obj" using assms(1) by simp
  then have "in_order F (snd (u_execRequestAsync obj w))"
    using assms(2) by (rule u_execRequestAsync_in_order)
  then show ?thesis
    using ExecRequestAsync by (auto simp: run_action_def split: prod.splits res.splits)
next
  case (PushRollback f)
  then show ?thesis
    using assms(2) in_order_cong[of "w\<lparr>rollbackLog := rollbackLog w @ [f]\<rparr>" w F]
    by (simp add: run_action_def)
qed

lemma run_actions_in_order:
  "list_all ok_action as \<Longrightarrow> in_order F w \<Longrightarrow> in_order F (snd (run_actions as w))"
proof (induction as arbitrary: w)
  case Nil
  then show ?case by simp
next
  case (Cons a as)
  obtain x w1 where a: "run_action a w = (x, w1)"
    by (cases "run_action a w")
  have i: "in_order F w1"
    using run_action_in_order[of a F w] Cons.prems a by simp
  show ?case
  proof (cases x)
    case (Ret u)
    then show ?thesis using a i Cons.IH[of w1] Cons.prems(1) by simp
  next
    case (Exn e)
    then show ?thesis using a i by simp
  qed
qed

lemma call_operation_in_order:
  assumes "ok_operation operation" and "in_order F w"
  shows "in_order F (snd (call_operation operation rid w))"
proof -
  let ?w0 = "observe (Executed rid) w"
  have "in_order F ?w0"
    using assms(2) in_order_cong[of ?w0 w F]
    by (simp add: observe_def dispatched_on_append)
  moreover have "list_all ok_action (op_acts operation)"
    using assms(1) by (cases operation) simp
  ultimately have "in_order F (snd (run_actions (op_acts operation) ?w0))"
    using run_actions_in_order by blast
  then show ?thesis
    by (auto simp: call_operation_def split: prod.splits res.splits outcome.splits)
qed

lemma abort_request_pending:
  assumes "\<not> done_at w rid" and "source (heap w rid) \<noteq> None"
  shows "snd (abort_request rid w) =
     observe (Dispatched (TRequest rid) error_event)
       (set_request rid (\<lambda>r. r\<lparr>readyState := Done, result := Undefined,
                                req_error := Some AbortError\<rparr>) w)"
proof -
  obtain s where "source (heap w rid) = Some s"
    using assms(2) by blast
  then show ?thesis
    using assms(1) unfolding abort_request_def Let_def done_at_def
    by (auto simp: set_request_def error_event_eq observe_def split: prod.splits
        dest!: dispatchEvent_world)
qed

lemma abort_request_done: "done_at w rid \<Longrightarrow> abort_request rid w = (Ret (), w)"
  by (simp add: abort_request_def done_at_def)

lemma filter_mark_done:
  assumes "filter (\<lambda>r. \<not> P r) ids = rid # rest" and "rid \<notin> set rest"
  shows "filter (\<lambda>r. \<not> (r = rid \<or> P r)) ids = rest"
proof -
  have "filter (\<lambda>r. \<not> (r = rid \<or> P r)) ids = filter (\<lambda>r. r \<noteq> rid) (filter (\<lambda>r. \<not> P r) ids)"
    by (simp add: conj_commute)
  also have "\<dots> = filter (\<lambda>r. r \<noteq> rid) rest"
    using assms(1) by simp
  also have "\<dots> = rest"
    using assms(2) by (auto simp: filter_id_conv)
  finally show ?thesis .
qed

lemma abort_request_in_order:
  assumes "in_order [] w" and "pending_queue w = rid # rest"
  shows "in_order [] (snd (abort_request rid w))"
proof -
  let ?w1 = "observe (Dispatched (TRequest rid) error_event)
       (set_request rid (\<lambda>r. r\<lparr>readyState := Done, result := Undefined,
                                req_error := Some AbortError\<rparr>) w)"
  have "rid \<in> set (pending_queue w)"
    using assms(2) by simp
  then have p: "\<not> done_at w rid"
    by (simp add: pending_queue_def)
  have "rid < next_request w"
    using in_order_bound[OF assms(1), of rid] assms(2) by simp
  then have s: "source (heap w rid) \<noteq> None"
    using assms(1) by (simp add: in_order_def)
  have e: "snd (abort_request rid w) = ?w1"
    using abort_request_pending[OF p s] .
  have "distinct (pending_queue w)"
    using in_order_distinct[OF assms(1)] by simp
  then have nr: "rid \<notin> set rest"
    using assms(2) by simp
  have d: "done_at ?w1 r = (r = rid \<or> done_at w r)" for r
    by (simp add: done_at_def observe_def set_request_def)
  have "pending_queue ?w1 = filter (\<lambda>r. \<not> (r = rid \<or> done_at w r)) (map snd (requests w))"
    unfolding pending_queue_def using d by (simp add: observe_def set_request_def)
  also have "\<dots> = rest"
    using assms(2) nr unfolding pending_queue_def by (rule filter_mark_done)
  finally have pq: "pending_queue ?w1 = rest" .
  have t: "dispatched_on (trace ?w1) = dispatched_on (trace w) @ [rid]"
    by (simp add: observe_def set_request_def dispatched_on_append)
  have "dispatched_on (trace ?w1) @ [] @ pending_queue ?w1 = [0..<next_request ?w1]"
    using assms pq t by (simp add: in_order_def observe_def set_request_def)
  moreover have "\<forall>r<next_request ?w1. source (heap ?w1 r) \<noteq> None"
    using assms(1) by (simp add: in_order_def observe_def set_request_def)
  moreover have "list_all (\<lambda>x. ok_operation (fst x) \<and> snd x < next_request ?w1) (requests ?w1)"
    using assms(1) by (simp add: in_order_def observe_def set_request_def)
  ultimately show ?thesis
    unfolding e in_order_def by blast
qed

lemma abort_requests_in_order:
  assumes "in_order [] w" and "requests w = pre @ q"
    and "list_all (\<lambda>x. done_at w (snd x)) pre"
  shows "in_order [] (snd (abort_requests q w))"
  using assms
proof (induction q arbitrary: w pre)
  case Nil
  then show ?case by simp
next
  case (Cons x q)
  obtain y w1 where a: "abort_request (snd x) w = (y, w1)"
    by (cases "abort_request (snd x) w")
  have f: "heap_trace_only w w1"
    using abort_request_frame[of w "snd x"] a by simp
  then have r1: "requests w1 = (pre @ [x]) @ q"
    using Cons.prems(2) by (simp add: heap_trace_only_def)
  have m: "done_at w1 (snd x)"
    using abort_request_marks[of "snd x" w] a by simp
  have "done_at w1 (snd z)" if "z \<in> set pre" for z
  proof -
    have "done_at w (snd z)"
      using that Cons.prems(3) by (simp add: list_all_iff)
    then show ?thesis
      using abort_request_done_same[of w "snd z" "snd x"] a by (simp add: done_at_def)
  qed
  then have d1: "list_all (\<lambda>x. done_at w1 (snd x)) (pre @ [x])"
    using m by (simp add: list_all_iff)
  have i1: "in_order [] w1"
  proof (cases "done_at w (snd x)")
    case True
    then show ?thesis
      using abort_request_done[of w "snd x"] a Cons.prems(1) by simp
  next
    case False
    have "filter (\<lambda>r. \<not> done_at w r) (map snd pre) = []"
      using Cons.prems(3) by (simp add: list_all_iff filter_empty_conv)
    then have "pending_queue w = snd x # filter (\<lambda>r. \<not> done_at w r) (map snd q)"
      using False Cons.prems(2) by (simp add: pending_queue_def)
    then show ?thesis
      using abort_request_in_order[OF Cons.prems(1)] a by simp
  qed
  show ?case
  proof (cases y)
    case (Ret u)
    then show ?thesis
      using a Cons.IH[OF i1 r1 d1] by simp
  next
    case (Exn e)
    then show ?thesis using a i1 by simp
  qed
qed

lemma u_abort_in_order:
  assumes "in_order [] w"
  shows "in_order [] (snd (u_abort n w))"
proof (cases n w rule: u_abort_cases)
  case (throws e)
  let ?w1 = "w\<lparr>rollbackLog := rev (rollbackLog w),
      trace := trace w @ compensations (entries_called (rev (rollbackLog w)))\<rparr>"
  have "in_order [] ?w1 = in_order [] w"
    by (rule in_order_cong) (simp_all add: dispatched_on_append dispatched_on_compensations)
  then show ?thesis using throws assms by simp
next
  case (listener e w3)
  have "in_order [] (rolled_back n w) = in_order [] w"
    by (rule in_order_cong)
       (simp_all add: rolled_back_def dispatched_on_append dispatched_on_compensations)
  then have "in_order [] (rolled_back n w)"
    using assms by simp
  then have "in_order [] (snd (abort_requests (requests w) (rolled_back n w)))"
    by (rule abort_requests_in_order[where pre = "[]"]) (simp_all add: rolled_back_fields)
  then show ?thesis using listener by simp
next
  case (completed w3)
  have "in_order [] (rolled_back n w) = in_order [] w"
    by (rule in_order_cong)
       (simp_all add: rolled_back_def dispatched_on_append dispatched_on_compensations)
  then have "in_order [] (rolled_back n w)"
    using assms by simp
  then have "in_order [] (snd (abort_requests (requests w) (rolled_back n w)))"
    by (rule abort_requests_in_order[where pre = "[]"]) (simp_all add: rolled_back_fields)
  then have "in_order [] w3"
    using completed by simp
  moreover have "in_order [] ((queueTask FireAbort w3)\<lparr>state := Finished\<rparr>) = in_order [] w3"
    by (rule in_order_cong) (simp_all add: queueTask_def)
  ultimately show ?thesis using completed by simp
qed

lemma dispatch_and_default_in_order:
  assumes "in_order [rid] w"
  shows "in_order [] (snd (dispatch_and_default rid ev d w))"
proof -
  let ?w1 = "observe (Dispatched (TRequest rid) (ev\<lparr>eventPath := [TDatabase, TTransaction]\<rparr>)) w"
  have "pending_queue ?w1 = pending_queue w"
    by (rule pending_queue_cong) (simp_all add: observe_def)
  then have i: "in_order [] ?w1"
    using assms by (simp add: in_order_def observe_def dispatched_on_append)
  then have "in_order [] (snd (u_abort n ?w1))" for n
    by (rule u_abort_in_order)
  then show ?thesis
    using dispatch_and_default_shape[of rid ev d w] i by auto
qed

lemma set_request_in_order:
  assumes "in_order [rid] w" and "\<And>x. source (f x) = source x"
    and "\<And>x. readyState (f x) = Done"
  shows "in_order [rid] (reactivate (set_request rid f w))"
proof -
  let ?w1 = "reactivate (set_request rid f w)"
  have h: "heap ?w1 = (heap w)(rid := f (heap w rid))" "requests ?w1 = requests w"
    "trace ?w1 = trace w" "next_request ?w1 = next_request w"
    by (simp_all add: reactivate_def set_request_def)
  have "distinct (dispatched_on (trace w) @ [rid] @ pending_queue w)"
    using assms(1) by (rule in_order_distinct)
  then have "rid \<notin> set (pending_queue w)"
    by simp
  then have "filter (\<lambda>r. \<not> done_at ?w1 r) (map snd (requests w)) =
      filter (\<lambda>r. \<not> done_at w r) (map snd (requests w))"
    using assms(3) h(1)
    by (intro filter_cong) (auto simp: done_at_def pending_queue_def)
  then have "pending_queue ?w1 = pending_queue w"
    using h(2) by (simp add: pending_queue_def)
  then show ?thesis
    using assms(1,2) h unfolding in_order_def by simp
qed

lemma run_sourced_in_order:
  assumes "in_order [rid] w" and "ok_operation operation"
  shows "in_order [] (snd (run_sourced operation rid w))"
proof -
  obtain x w1 where a: "call_operation operation rid w = (x, w1)"
    by (cases "call_operation operation rid w")
  have i1: "in_order [rid] w1"
    using call_operation_in_order[OF assms(2,1), of rid] a by simp
  have "in_order [] (snd (dispatch_and_default rid ev d (reactivate (set_request rid f w1))))"
    if "\<And>x. source (f x) = source x" "\<And>x. readyState (f x) = Done" for ev d f
    using set_request_in_order[OF i1 that] by (rule dispatch_and_default_in_order)
  then show ?thesis
    using a unfolding run_sourced_def Let_def by (cases x) simp_all
qed

lemma drained_pending_queue: "drained w \<longleftrightarrow> pending_queue w = []"
  by (auto simp: drained_def pending_queue_def list_all_iff filter_empty_conv)

lemma u_start_in_order:
  assumes "in_order [] w"
  shows "in_order [] (snd (u_start w))"
proof (cases "drained w")
  case True
  let ?w1 = "w\<lparr>started := True, requests := []\<rparr>"
  have "pending_queue w = []"
    using True by (simp add: drained_pending_queue)
  then have i: "in_order [] ?w1"
    using assms by (simp add: in_order_def pending_queue_def)
  have "in_order [] (snd (finish ?w1)) = in_order [] ?w1"
    by (rule in_order_cong) (simp_all add: finish_eq observe_def dispatched_on_append)
  then show ?thesis
    using True i by (simp add: u_start_when_drained)
next
  case False
  then obtain operation rid q where s:
    "shift_pending (requests w) (heap w) = (Some (operation, rid), q)"
    by (cases "shift_pending (requests w) (heap w)") (auto simp: drained_iff)
  obtain pre where pre: "requests w = pre @ (operation, rid) # q"
    "list_all (\<lambda>x. readyState (heap w (snd x)) = Done) pre" "readyState (heap w rid) \<noteq> Done"
    using shift_pending_Some[OF s] by auto
  let ?w1 = "w\<lparr>started := True, requests := q\<rparr>"
  have io: "dispatched_on (trace w) @ pending_queue w = [0..<next_request w]"
    and srcs: "\<forall>r<next_request w. source (heap w r) \<noteq> None"
    and la: "list_all (\<lambda>x. ok_operation (fst x) \<and> snd x < next_request w) (requests w)"
    using assms by (simp_all add: in_order_def)
  have "filter (\<lambda>r. \<not> done_at w r) (map snd pre) = []"
    using pre(2) by (simp add: list_all_iff filter_empty_conv done_at_def)
  moreover have "pending_queue ?w1 = filter (\<lambda>r. \<not> done_at w r) (map snd q)"
    by (simp add: pending_queue_def done_at_def)
  ultimately have pq: "pending_queue w = rid # pending_queue ?w1"
    unfolding pending_queue_def pre(1) using pre(3) by (simp add: done_at_def)
  have ok: "ok_operation operation" "rid < next_request w"
    and la1: "list_all (\<lambda>x. ok_operation (fst x) \<and> snd x < next_request w) q"
    using la unfolding pre(1) by simp_all
  have src: "source (heap w rid) \<noteq> None"
    using srcs ok(2) by blast
  have "dispatched_on (trace ?w1) @ [rid] @ pending_queue ?w1 = [0..<next_request ?w1]"
    using io unfolding pq by simp
  moreover have "\<forall>r<next_request ?w1. source (heap ?w1 r) \<noteq> None"
    using srcs by simp
  moreover have "list_all (\<lambda>x. ok_operation (fst x) \<and> snd x < next_request ?w1) (requests ?w1)"
    using la1 by simp
  ultimately have i1: "in_order [rid] ?w1"
    unfolding in_order_def by blast
  have i2: "in_order [] (snd (run_sourced operation rid ?w1))"
    using i1 ok(1) by (rule run_sourced_in_order)
  have "in_order [] (queueTask RunStart (snd (run_sourced operation rid ?w1))) =
      in_order [] (snd (run_sourced operation rid ?w1))"
    by (rule in_order_cong) (simp_all add: queueTask_def)
  then have i3: "in_order [] (queueTask RunStart (snd (run_sourced operation rid ?w1)))"
    using i2 by simp
  define p where "p = (if source (heap w rid) = None then run_plain operation rid ?w1
      else run_sourced operation rid ?w1)"
  have "p = run_sourced operation rid ?w1"
    using src unfolding p_def by auto
  then show ?thesis
    using u_start_found_parts[OF s p_def] i2 i3 by metis
qed

lemma do_call_in_order:
  assumes "ok_call c" and "in_order [] w"
  shows "in_order [] (do_call c w)"
proof (cases c)
  case (CallExecRequestAsync obj)
  then show ?thesis
    using assms u_execRequestAsync_in_order[of obj "[]" w] by simp
next
  case CallAbort
  have "in_order [] (w\<lparr>state := Active\<rparr>) = in_order [] w"
    by (rule in_order_cong) simp_all
  then have "in_order [] (snd (u_abort None (w\<lparr>state := Active\<rparr>)))"
    using assms(2) u_abort_in_order by blast
  then show ?thesis
    using CallAbort assms(2) by (simp add: abort_def)
next
  case CallCommit
  have "in_order [] (w\<lparr>state := Committing\<rparr>) = in_order [] w"
    by (rule in_order_cong) simp_all
  then show ?thesis
    using CallCommit assms(2) by (simp add: commit_def)
next
  case (CallObjectStore name)
  have "in_order [] (snd (objectStore name w)) = in_order [] w"
    by (rule in_order_cong) (simp_all add: objectStore_def Let_def split: option.splits)
  then show ?thesis
    using CallObjectStore assms(2) by simp
next
  case CallStart
  then show ?thesis using assms(2) u_start_in_order by simp
next
  case Tick
  show ?thesis
  proof (cases "tasks w")
    case Nil
    then show ?thesis using Tick assms(2) by (simp add: tick_def)
  next
    case (Cons t ts)
    have i: "in_order [] (w\<lparr>tasks := ts\<rparr>)"
      using assms(2) in_order_cong[of "w\<lparr>tasks := ts\<rparr>" w "[]"] by simp
    show ?thesis
    proof (cases t)
      case RunStart
      have "run_task RunStart (w\<lparr>tasks := ts\<rparr>) = u_start (w\<lparr>tasks := ts\<rparr>)"
        by (simp add: run_task_def)
      then show ?thesis
        using Tick Cons RunStart u_start_in_order[OF i] by (simp add: tick_def)
    next
      case FireAbort
      have "in_order [] (snd (run_task FireAbort (w\<lparr>tasks := ts\<rparr>))) =
          in_order [] (w\<lparr>tasks := ts\<rparr>)"
        by (rule in_order_cong)
           (simp_all add: fire_abort_eq observe_def dispatched_on_append)
      then show ?thesis
        using Tick Cons FireAbort i by (simp add: tick_def)
    qed
  qed
next
  case (SetRawObjectStores db)
  then show ?thesis
    using assms(2) in_order_cong[of "w\<lparr>rawObjectStores := map_of db\<rparr>" w "[]"] by simp
next
  case (SetListeners ls)
  then show ?thesis
    using assms(2) in_order_cong[of "w\<lparr>listeners := listeners_of ls\<rparr>" w "[]"] by simp
next
  case (PushRollbackLog f)
  then show ?thesis
    using assms(2) in_order_cong[of "w\<lparr>rollbackLog := rollbackLog w @ [f]\<rparr>" w "[]"] by simp
qed

lemma new_in_order: "in_order [] (FDBTransaction storeNames m db ls)"
  by (simp add: in_order_def pending_queue_def FDBTransaction_def)

subsection \<open>The order in which operations are called\<close>

lemma u_abort_executed: "executed_on (trace (snd (u_abort n w))) = executed_on (trace w)"
proof -
  obtain rest where "trace (snd (u_abort n w)) =
      trace w @ compensations (entries_called (rev (rollbackLog w))) @ rest"
    "list_all is_request_event rest"
    using u_abort_trace[of n w] by auto
  then show ?thesis
    by (simp add: executed_on_append executed_on_compensations executed_on_request_events)
qed

lemma dispatch_and_default_executed:
  "\<exists>e rest. trace (snd (dispatch_and_default rid ev d w)) =
             trace w @ Dispatched (TRequest rid) e # rest \<and> executed_on rest = []"
proof -
  let ?ev = "ev\<lparr>eventPath := [TDatabase, TTransaction]\<rparr>"
  let ?w1 = "observe (Dispatched (TRequest rid) ?ev) w"
  have t1: "trace ?w1 = trace w @ [Dispatched (TRequest rid) ?ev]"
    by (simp add: observe_def)
  have ab: "\<exists>rest. trace (snd (u_abort n ?w1)) = trace w @ Dispatched (TRequest rid) ?ev # rest \<and>
      executed_on rest = []" for n
  proof -
    obtain r2 where r2: "trace (snd (u_abort n ?w1)) = trace ?w1 @ r2"
      using u_abort_no_tx[of n ?w1] by blast
    have "executed_on (trace (snd (u_abort n ?w1))) = executed_on (trace ?w1)"
      by (rule u_abort_executed)
    then have "executed_on r2 = []"
      using r2 by (simp add: executed_on_append)
    then show ?thesis
      using r2 t1 by simp
  qed
  consider (same) "snd (dispatch_and_default rid ev d w) = ?w1"
    | (aborted) n where "snd (dispatch_and_default rid ev d w) = snd (u_abort n ?w1)"
    using dispatch_and_default_shape[of rid ev d w] by blast
  then show ?thesis
  proof cases
    case same
    then show ?thesis using t1 by simp
  next
    case (aborted n)
    then show ?thesis using ab[of n] by metis
  qed
qed

lemma run_sourced_executed:
  "\<exists>e rest. trace (snd (run_sourced operation rid w)) =
             trace w @ Executed rid # Dispatched (TRequest rid) e # rest \<and>
           executed_on rest = []"
proof -
  obtain x w1 where a: "call_operation operation rid w = (x, w1)"
    by (cases "call_operation operation rid w")
  have t1: "trace w1 = trace w @ [Executed rid]"
    using call_operation_trace[of operation rid w] a by simp
  have "\<exists>e rest. trace (snd (dispatch_and_default rid ev d (reactivate (set_request rid f w1)))) =
      trace w @ Executed rid # Dispatched (TRequest rid) e # rest \<and> executed_on rest = []"
    for ev d f
  proof -
    let ?w3 = "reactivate (set_request rid f w1)"
    have t3: "trace ?w3 = trace w @ [Executed rid]"
      using t1 by (simp add: reactivate_def set_request_def)
    obtain e rest where "trace (snd (dispatch_and_default rid ev d ?w3)) =
        trace ?w3 @ Dispatched (TRequest rid) e # rest" "executed_on rest = []"
      using dispatch_and_default_executed[of rid ev d ?w3] by blast
    then show ?thesis
      using t3 by simp
  qed
  then show ?thesis
    using a unfolding run_sourced_def Let_def by (cases x) simp_all
qed

lemma u_start_executed:
  assumes "in_order [] w"
  shows "executed_on (trace (snd (u_start w))) = executed_on (trace w) \<or>
     (\<exists>rid rest. pending_queue w = rid # rest \<and>
        executed_on (trace (snd (u_start w))) = executed_on (trace w) @ [rid] \<and>
        rid \<in> set (dispatched_on (trace (snd (u_start w)))))"
proof (cases "drained w")
  case True
  then show ?thesis
    by (simp add: u_start_when_drained finish_eq observe_def executed_on_append)
next
  case False
  then obtain operation rid q where s:
    "shift_pending (requests w) (heap w) = (Some (operation, rid), q)"
    by (cases "shift_pending (requests w) (heap w)") (auto simp: drained_iff)
  obtain pre where pre: "requests w = pre @ (operation, rid) # q"
    "list_all (\<lambda>x. readyState (heap w (snd x)) = Done) pre" "readyState (heap w rid) \<noteq> Done"
    using shift_pending_Some[OF s] by auto
  let ?w1 = "w\<lparr>started := True, requests := q\<rparr>"
  have "filter (\<lambda>r. \<not> done_at w r) (map snd pre) = []"
    using pre(2) by (simp add: list_all_iff filter_empty_conv done_at_def)
  then have pq: "pending_queue w = rid # filter (\<lambda>r. \<not> done_at w r) (map snd q)"
    unfolding pending_queue_def pre(1) using pre(3) by (simp add: done_at_def)
  have "rid < next_request w"
    using in_order_bound[OF assms, of rid] pq by simp
  then have src: "source (heap w rid) \<noteq> None"
    using assms by (simp add: in_order_def)
  define p where "p = (if source (heap w rid) = None then run_plain operation rid ?w1
      else run_sourced operation rid ?w1)"
  have "p = run_sourced operation rid ?w1"
    using src unfolding p_def by auto
  then obtain e rest where t: "trace (snd p) =
      trace w @ Executed rid # Dispatched (TRequest rid) e # rest" "executed_on rest = []"
    using run_sourced_executed[of operation rid ?w1] by auto
  have "trace (snd (u_start w)) = trace (snd p)"
    using u_start_found_parts[OF s p_def] by (auto simp: queueTask_def)
  then have "executed_on (trace (snd (u_start w))) = executed_on (trace w) @ [rid]"
    and "rid \<in> set (dispatched_on (trace (snd (u_start w))))"
    using t by (simp_all add: executed_on_append dispatched_on_append)
  then show ?thesis
    using pq by blast
qed

lemma upt_before:
  assumes "xs @ r # ys = [0..<n]" and "e \<in> set xs"
  shows "e < r"
proof -
  have "sorted_wrt (<) (xs @ r # ys)"
    using assms(1) by (simp add: sorted_wrt_upt)
  then show ?thesis
    using assms(2) by (simp add: sorted_wrt_append)
qed

lemma sorted_wrt_snoc:
  "sorted_wrt (<) xs \<Longrightarrow> \<forall>e\<in>set xs. e < (r::nat) \<Longrightarrow> sorted_wrt (<) (xs @ [r])"
  by (simp add: sorted_wrt_append)

lemma u_start_executed_in_order:
  assumes "in_order [] w" and "executed_in_order w"
  shows "executed_in_order (snd (u_start w))"
proof -
  obtain ext where g: "trace (snd (u_start w)) = trace w @ ext"
    using u_start_trace_grows[of w] by blast
  then have sub: "set (dispatched_on (trace w)) \<subseteq> set (dispatched_on (trace (snd (u_start w))))"
    by (simp add: dispatched_on_append)
  consider (same) "executed_on (trace (snd (u_start w))) = executed_on (trace w)"
    | (one) rid rest where "pending_queue w = rid # rest"
        "executed_on (trace (snd (u_start w))) = executed_on (trace w) @ [rid]"
        "rid \<in> set (dispatched_on (trace (snd (u_start w))))"
    using u_start_executed[OF assms(1)] by blast
  then show ?thesis
  proof cases
    case same
    then show ?thesis
      using assms(2) sub by (auto simp: executed_in_order_def)
  next
    case (one rid rest)
    have "dispatched_on (trace w) @ rid # rest = [0..<next_request w]"
      using assms(1) one(1) by (simp add: in_order_def)
    then have "\<forall>e\<in>set (dispatched_on (trace w)). e < rid"
      using upt_before by blast
    then have "\<forall>e\<in>set (executed_on (trace w)). e < rid"
      using assms(2) by (auto simp: executed_in_order_def)
    then have "sorted_wrt (<) (executed_on (trace w) @ [rid])"
      using assms(2) sorted_wrt_snoc by (simp add: executed_in_order_def)
    then show ?thesis
      using one(2,3) assms(2) sub by (auto simp: executed_in_order_def)
  qed
qed

lemma executed_in_order_cong:
  "trace w1 = trace w \<Longrightarrow> executed_in_order w1 = executed_in_order w"
  by (simp add: executed_in_order_def)

lemma executed_in_order_grows:
  assumes "executed_in_order w" and "trace w1 = trace w @ ext" and "executed_on ext = []"
  shows "executed_in_order w1"
  using assms by (auto simp: executed_in_order_def executed_on_append dispatched_on_append)

lemma abort_executed_in_order: "executed_in_order w \<Longrightarrow> executed_in_order (snd (abort w))"
proof -
  assume e: "executed_in_order w"
  obtain ext where g: "trace (snd (abort w)) = trace w @ ext"
    using abort_no_tx[of w] by blast
  have "executed_on (trace (snd (abort w))) = executed_on (trace w)"
    using u_abort_executed[of None "w\<lparr>state := Active\<rparr>"] by (simp add: abort_def)
  then have "executed_on ext = []"
    using g by (simp add: executed_on_append)
  then show ?thesis
    using e g executed_in_order_grows by blast
qed

lemma do_call_executed_in_order:
  assumes "in_order [] w" and "executed_in_order w"
  shows "executed_in_order (do_call c w)"
proof (cases c)
  case (CallExecRequestAsync obj)
  then show ?thesis
    using assms(2) executed_in_order_cong[OF u_execRequestAsync_trace[of obj w]] by simp
next
  case CallAbort
  then show ?thesis using assms(2) abort_executed_in_order by simp
next
  case CallCommit
  then show ?thesis
    using assms(2) by (simp add: commit_def executed_in_order_def)
next
  case (CallObjectStore name)
  have "trace (snd (objectStore name w)) = trace w"
    by (simp add: objectStore_def Let_def split: option.splits)
  then have "executed_in_order (snd (objectStore name w)) = executed_in_order w"
    by (rule executed_in_order_cong)
  then show ?thesis
    using CallObjectStore assms(2) by simp
next
  case CallStart
  then show ?thesis using assms u_start_executed_in_order by simp
next
  case Tick
  show ?thesis
  proof (cases "tasks w")
    case Nil
    then show ?thesis using Tick assms(2) by (simp add: tick_def)
  next
    case (Cons t ts)
    have i: "in_order [] (w\<lparr>tasks := ts\<rparr>)" "executed_in_order (w\<lparr>tasks := ts\<rparr>)"
      using assms in_order_cong[of "w\<lparr>tasks := ts\<rparr>" w "[]"]
      by (simp_all add: executed_in_order_def)
    show ?thesis
    proof (cases t)
      case RunStart
      have "run_task RunStart (w\<lparr>tasks := ts\<rparr>) = u_start (w\<lparr>tasks := ts\<rparr>)"
        by (simp add: run_task_def)
      then show ?thesis
        using Tick Cons RunStart u_start_executed_in_order[OF i] by (simp add: tick_def)
    next
      case FireAbort
      have "executed_in_order (snd (run_task FireAbort (w\<lparr>tasks := ts\<rparr>)))"
        using i(2)
        by (rule executed_in_order_grows[where ext = "[Dispatched TTransaction abort_event]"])
           (simp_all add: fire_abort_eq observe_def)
      then show ?thesis
        using Tick Cons FireAbort by (simp add: tick_def)
    qed
  qed
next
  case (SetRawObjectStores db)
  then show ?thesis using assms(2) by (simp add: executed_in_order_def)
next
  case (SetListeners ls)
  then show ?thesis using assms(2) by (simp add: executed_in_order_def)
next
  case (PushRollbackLog f)
  then show ?thesis using assms(2) by (simp add: executed_in_order_def)
qed

lemma run_in_order:
  "list_all ok_call cs \<Longrightarrow> in_order [] w \<Longrightarrow> executed_in_order w \<Longrightarrow>
   in_order [] (run cs w) \<and> executed_in_order (run cs w)"
proof (induction cs arbitrary: w)
  case Nil
  then show ?case by (simp add: run_Nil)
next
  case (Cons c cs)
  have "in_order [] (do_call c w)" "executed_in_order (do_call c w)"
    using Cons.prems do_call_in_order[of c w] do_call_executed_in_order[of w c] by simp_all
  then show ?case
    using Cons.IH[of "do_call c w"] Cons.prems(1) by (simp add: run_Cons)
qed

lemma new_executed_in_order: "executed_in_order (FDBTransaction storeNames m db ls)"
  by (simp add: executed_in_order_def FDBTransaction_def)

text \<open>For a transaction all of whose requests are made with a source and a request
  object of their own, the order of the whole run can be told by the numbers of the
  requests.\<close>

lemma sourced_requests_in_order:
  assumes "w = run cs (FDBTransaction storeNames m db ls)" and "list_all ok_call cs"
  shows "dispatched_on (trace w) @ pending_queue w = [0..<next_request w] \<and>
     sorted_wrt (<) (executed_on (trace w)) \<and>
     set (executed_on (trace w)) \<subseteq> set (dispatched_on (trace w))"
proof -
  have "in_order [] w \<and> executed_in_order w"
    unfolding assms(1)
    using assms(2) new_in_order new_executed_in_order by (rule run_in_order)
  then show ?thesis
    by (simp add: in_order_def executed_in_order_def)
qed

subsection \<open>Listeners that throw\<close>

lemma quiet_listener_throw: "quiet hs \<longleftrightarrow> listener_throw hs = None"
  by (induction hs) (auto simp: quiet_def split: option.splits)

lemma invoke_listeners_throw:
  "listener_throw hs = Some e \<Longrightarrow> \<exists>ev1. invoke_listeners hs ev = (Exn e, ev1)"
  by (induction hs arbitrary: ev) (auto simp: Let_def split: option.splits)

lemma dispatchEvent_throw:
  assumes "listener_throw (dispatch_chain w tgt ev) = Some e"
  shows "\<exists>ev1. dispatchEvent tgt ev w = (Exn e, ev1, observe (Dispatched tgt ev) w)"
proof -
  obtain ev1 where "invoke_listeners (dispatch_chain w tgt ev) ev = (Exn e, ev1)"
    using invoke_listeners_throw[OF assms] by blast
  then show ?thesis
    by (simp add: dispatchEvent_eq)
qed

lemma dispatch_and_default_throw:
  assumes "listener_throw (dispatch_chain w (TRequest rid) error_event) = Some e2"
  shows "dispatch_and_default rid (FakeEvent ''error'' True True) d w =
     (if state w \<noteq> Committing then
        (case u_abort (Some ''AbortError'') (observe (Dispatched (TRequest rid) error_event) w) of
           (Exn e3, w2) \<Rightarrow> (Exn e3, w2)
         | (Ret _, w2) \<Rightarrow> (Exn e2, w2))
      else (Exn e2, observe (Dispatched (TRequest rid) error_event) w))"
proof -
  obtain ev1 where "dispatchEvent (TRequest rid) error_event w =
      (Exn e2, ev1, observe (Dispatched (TRequest rid) error_event) w)"
    using dispatchEvent_throw[OF assms] by blast
  then show ?thesis
    by (simp add: dispatch_and_default_def error_event_eq observe_def)
qed

lemma u_start_listener_throws:
  assumes "shift_pending (requests w) (heap w) = (Some (operation, rid), q)"
    and "source (heap w rid) \<noteq> None"
    and "call_operation operation rid (w\<lparr>started := True, requests := q\<rparr>) = (Exn err, w2)"
    and "listener_throw (dispatch_chain w (TRequest rid) error_event) = Some e2"
  shows "u_start w =
     (if state w \<noteq> Committing then
        (case u_abort (Some ''AbortError'') (failed_at rid err w2) of
           (Exn e3, w4) \<Rightarrow> (Exn e3, w4)
         | (Ret _, w4) \<Rightarrow> (Exn e2, w4))
      else (Exn e2, failed_at rid err w2))"
proof -
  let ?w3 = "reactivate (set_request rid
                (\<lambda>r. r\<lparr>readyState := Done, result := Undefined, req_error := Some err\<rparr>) w2)"
  have fr: "operation_frame (w\<lparr>started := True, requests := q\<rparr>) w2"
    using call_operation_frame[of "w\<lparr>started := True, requests := q\<rparr>" operation rid]
      assms(3) by simp
  then have "listeners ?w3 = listeners w"
    by (simp add: operation_frame_def static_def reactivate_def set_request_def)
  then have c: "dispatch_chain ?w3 (TRequest rid) error_event =
      dispatch_chain w (TRequest rid) error_event"
    by (rule dispatch_chain_listeners)
  have s3: "(state ?w3 \<noteq> Committing) = (state w \<noteq> Committing)"
    using fr by (auto simp: operation_frame_def reactivate_def set_request_def)
  have "listener_throw (dispatch_chain ?w3 (TRequest rid) error_event) = Some e2"
    using assms(4) c by simp
  then have "dispatch_and_default rid (FakeEvent ''error'' True True) (Some (err_name err)) ?w3 =
     (if state w \<noteq> Committing then
        (case u_abort (Some ''AbortError'') (failed_at rid err w2) of
           (Exn e3, w4) \<Rightarrow> (Exn e3, w4)
         | (Ret _, w4) \<Rightarrow> (Exn e2, w4))
      else (Exn e2, failed_at rid err w2))"
    using s3 by (simp add: dispatch_and_default_throw failed_at_def)
  then show ?thesis
    using u_start_throwing[OF assms(1,2,3)]
    by (auto split: prod.splits res.splits)
qed

lemma u_start_failed_shape:
  assumes "shift_pending (requests w) (heap w) = (Some (operation, rid), q)"
    and "source (heap w rid) \<noteq> None"
    and "call_operation operation rid (w\<lparr>started := True, requests := q\<rparr>) = (Exn err, w2)"
  shows "readyState (heap (snd (u_start w)) rid) = Done \<and>
     result (heap (snd (u_start w)) rid) = Undefined \<and>
     req_error (heap (snd (u_start w)) rid) = Some err \<and>
     (\<exists>rest. trace (snd (u_start w)) =
        trace w @ [Executed rid, Dispatched (TRequest rid) error_event] @ rest)"
proof -
  let ?w1 = "w\<lparr>started := True, requests := q\<rparr>"
  let ?v = "reactivate (set_request rid
                (\<lambda>r. r\<lparr>readyState := Done, result := Undefined, req_error := Some err\<rparr>) w2)"
  let ?w3 = "failed_at rid err w2"
  let ?d = "dispatch_and_default rid (FakeEvent ''error'' True True) (Some (err_name err)) ?v"
  note f = failed_at_fields[OF assms(3)]
  have d3: "done_at ?w3 rid"
    by (simp add: done_at_def f(8))
  have good: "readyState (heap x rid) = Done \<and> result (heap x rid) = Undefined \<and>
      req_error (heap x rid) = Some err \<and>
      (\<exists>rest. trace x = trace w @ [Executed rid, Dispatched (TRequest rid) error_event] @ rest)"
    if "x = ?w3 \<or> (\<exists>n. x = snd (u_abort n ?w3))" for x
  proof -
    have "heap x rid = heap ?w3 rid"
      using that u_abort_done_same[OF d3] by auto
    moreover have "\<exists>rest. trace x = trace ?w3 @ rest"
      using that u_abort_trace[of _ ?w3] by auto
    ultimately show ?thesis
      using f by auto
  qed
  have w3: "observe (Dispatched (TRequest rid)
      ((FakeEvent ''error'' True True)\<lparr>eventPath := [TDatabase, TTransaction]\<rparr>)) ?v = ?w3"
    by (simp add: failed_at_def error_event_eq)
  have "snd ?d = ?w3 \<or> (\<exists>n. snd ?d = snd (u_abort n ?w3))"
    using dispatch_and_default_shape[of rid "FakeEvent ''error'' True True"
        "Some (err_name err)" ?v] unfolding w3 by simp
  then have g: "readyState (heap (snd ?d) rid) = Done \<and> result (heap (snd ?d) rid) = Undefined \<and>
      req_error (heap (snd ?d) rid) = Some err \<and>
      (\<exists>rest. trace (snd ?d) =
         trace w @ [Executed rid, Dispatched (TRequest rid) error_event] @ rest)"
    by (rule good)
  have "u_start w =
     (case ?d of (Exn e, w4) \<Rightarrow> (Exn e, w4) | (Ret _, w4) \<Rightarrow> (Ret (), queueTask RunStart w4))"
    by (rule u_start_throwing[OF assms])
  then have "snd (u_start w) = snd ?d \<or> snd (u_start w) = queueTask RunStart (snd ?d)"
    using snd_then_queue[where p = ?d and t = RunStart] by simp
  then have "heap (snd (u_start w)) = heap (snd ?d) \<and> trace (snd (u_start w)) = trace (snd ?d)"
    by (auto simp: queueTask_def)
  then show ?thesis
    using g by simp
qed

subsection \<open>Operations called on a transaction that is not active\<close>

lemma run_actions_closed:
  "state w \<noteq> Active \<Longrightarrow>
   run_actions as w =
     ((if makes_request as then Exn TransactionInactiveError else Ret ()),
      w\<lparr>rollbackLog := rollbackLog w @ pushed_before as\<rparr>)"
proof (induction as arbitrary: w)
  case Nil
  show ?case by simp
next
  case (Cons a as)
  show ?case
  proof (cases a)
    case (ExecRequestAsync obj)
    then show ?thesis
      using Cons.prems by (simp add: run_action_def u_execRequestAsync_inactive)
  next
    case (PushRollback f)
    let ?w1 = "w\<lparr>rollbackLog := rollbackLog w @ [f]\<rparr>"
    have "state ?w1 \<noteq> Active"
      using Cons.prems by simp
    then have "run_actions as ?w1 =
        ((if makes_request as then Exn TransactionInactiveError else Ret ()),
         ?w1\<lparr>rollbackLog := rollbackLog ?w1 @ pushed_before as\<rparr>)"
      by (rule Cons.IH)
    then show ?thesis
      using PushRollback by (simp add: run_action_def)
  qed
qed

lemma call_operation_closed:
  assumes "state w \<noteq> Active"
  shows "call_operation operation rid w =
     (outcome_closed operation, executed_closed operation rid w)"
proof -
  have "state (observe (Executed rid) w) \<noteq> Active"
    using assms by (simp add: observe_def)
  then have "run_actions (op_acts operation) (observe (Executed rid) w) =
      ((if makes_request (op_acts operation) then Exn TransactionInactiveError else Ret ()),
       (observe (Executed rid) w)\<lparr>rollbackLog :=
          rollbackLog (observe (Executed rid) w) @ pushed_before (op_acts operation)\<rparr>)"
    by (rule run_actions_closed)
  then show ?thesis
    by (simp add: call_operation_def outcome_closed_def executed_closed_def observe_def
        split: outcome.splits)
qed

lemma dispatch_and_default_success:
  assumes "state w = Committing \<or>
    listener_throw (dispatch_chain w (TRequest rid) success_event) = None"
  shows "dispatch_and_default rid (FakeEvent ''success'' False False) None w =
     (case listener_throw (dispatch_chain w (TRequest rid) success_event) of
        None \<Rightarrow> (Ret (), observe (Dispatched (TRequest rid) success_event) w)
      | Some e \<Rightarrow> (Exn e, observe (Dispatched (TRequest rid) success_event) w))"
proof (cases "listener_throw (dispatch_chain w (TRequest rid) success_event)")
  case None
  then have "quiet (dispatch_chain w (TRequest rid) success_event)"
    by (simp add: quiet_listener_throw)
  then have "dispatchEvent (TRequest rid) success_event w =
     (Ret (),
      success_event\<lparr>canceled := canceled success_event \<or>
            (cancelable success_event \<and>
             list_ex h_prevents (dispatch_chain w (TRequest rid) success_event))\<rparr>,
      observe (Dispatched (TRequest rid) success_event) w)"
    by (rule dispatchEvent_quiet)
  then show ?thesis
    using None by (simp add: dispatch_and_default_def success_event_eq success_event_def)
next
  case (Some e)
  then obtain ev1 where "dispatchEvent (TRequest rid) success_event w =
      (Exn e, ev1, observe (Dispatched (TRequest rid) success_event) w)"
    using dispatchEvent_throw by blast
  moreover have "state w = Committing"
    using assms Some by simp
  ultimately show ?thesis
    using Some by (simp add: dispatch_and_default_def success_event_eq observe_def)
qed

lemma u_start_success:
  assumes "shift_pending (requests w) (heap w) = (Some (operation, rid), q)"
    and "source (heap w rid) \<noteq> None"
    and "call_operation operation rid (w\<lparr>started := True, requests := q\<rparr>) = (Ret v, w2)"
    and "state w = Committing \<or>
      listener_throw (dispatch_chain w (TRequest rid) success_event) = None"
  shows "u_start w =
     (case listener_throw (dispatch_chain w (TRequest rid) success_event) of
        None \<Rightarrow> (Ret (), queueTask RunStart (succeeded_at rid v w2))
      | Some e \<Rightarrow> (Exn e, succeeded_at rid v w2))"
proof -
  let ?w1 = "w\<lparr>started := True, requests := q\<rparr>"
  let ?w3 = "reactivate (set_request rid
                (\<lambda>r. r\<lparr>readyState := Done, result := v, req_error := None\<rparr>) w2)"
  obtain s where src: "source (heap w rid) = Some s"
    using assms(2) by blast
  have fr: "operation_frame ?w1 w2"
    using call_operation_frame[of ?w1 operation rid] assms(3) by simp
  then have "listeners ?w3 = listeners w"
    by (simp add: operation_frame_def static_def reactivate_def set_request_def)
  then have c: "dispatch_chain ?w3 (TRequest rid) success_event =
      dispatch_chain w (TRequest rid) success_event"
    by (rule dispatch_chain_listeners)
  have "state w = Committing \<Longrightarrow> state ?w3 = Committing"
    using fr by (simp add: operation_frame_def reactivate_def set_request_def)
  then have k: "state ?w3 = Committing \<or>
      listener_throw (dispatch_chain ?w3 (TRequest rid) success_event) = None"
    using assms(4) c by auto
  have "dispatch_and_default rid (FakeEvent ''success'' False False) None ?w3 =
     (case listener_throw (dispatch_chain ?w3 (TRequest rid) success_event) of
        None \<Rightarrow> (Ret (), observe (Dispatched (TRequest rid) success_event) ?w3)
      | Some e \<Rightarrow> (Exn e, observe (Dispatched (TRequest rid) success_event) ?w3))"
    using k by (rule dispatch_and_default_success)
  then have "dispatch_and_default rid (FakeEvent ''success'' False False) None ?w3 =
     (case listener_throw (dispatch_chain w (TRequest rid) success_event) of
        None \<Rightarrow> (Ret (), succeeded_at rid v w2)
      | Some e \<Rightarrow> (Exn e, succeeded_at rid v w2))"
    unfolding succeeded_at_def c .
  moreover have "u_start w =
     (case dispatch_and_default rid (FakeEvent ''success'' False False) None ?w3 of
        (Exn e, w4) \<Rightarrow> (Exn e, w4)
      | (Ret _, w4) \<Rightarrow> (Ret (), queueTask RunStart w4))"
    using assms(1,3) src by (simp add: u_start_found run_sourced_def)
  ultimately show ?thesis
    by (simp split: option.splits)
qed

lemma u_start_plain:
  assumes "shift_pending (requests w) (heap w) = (Some (operation, rid), q)"
    and "source (heap w rid) = None"
    and "call_operation operation rid (w\<lparr>started := True, requests := q\<rparr>) = (x, w2)"
  shows "u_start w =
     (case x of Ret v \<Rightarrow> (Ret (), queueTask RunStart w2) | Exn e \<Rightarrow> (Exn e, w2))"
  using assms by (cases x) (simp_all add: u_start_found run_plain_def)

subsection \<open>The driver on a closed transaction\<close>

lemma u_start_closed_requests:
  assumes "state w \<noteq> Active"
    and "shift_pending (requests w) (heap w) = (Some (operation, rid), q)"
  shows "requests (snd (u_start w)) = q"
proof -
  let ?w1 = "w\<lparr>started := True, requests := q\<rparr>"
  have na: "state ?w1 \<noteq> Active"
    using assms(1) by simp
  define p where "p = (if source (heap w rid) = None then run_plain operation rid ?w1
          else run_sourced operation rid ?w1)"
  have plain: "requests (snd (run_plain operation rid ?w1)) = q"
  proof -
    have "snd (run_plain operation rid ?w1) = snd (call_operation operation rid ?w1)"
      by (auto simp: run_plain_def split: prod.splits res.splits)
    then show ?thesis
      using call_operation_inactive[OF na, of operation rid] by simp
  qed
  have sourced: "requests (snd (run_sourced operation rid ?w1)) = q"
  proof -
    obtain x w2 where a: "call_operation operation rid ?w1 = (x, w2)"
      by (cases "call_operation operation rid ?w1")
    have h2: "requests w2 = q"
      using call_operation_inactive[OF na, of operation rid] a by simp
    have "requests (snd (dispatch_and_default rid ev d (reactivate (set_request rid f w2)))) = q"
      for ev d f
      using dispatch_and_default_waiting[of rid ev d "reactivate (set_request rid f w2)"] h2
      by (simp add: reactivate_def set_request_def)
    then show ?thesis
      using a unfolding run_sourced_def Let_def by (cases x) simp_all
  qed
  have "requests (snd p) = q"
    using plain sourced by (simp add: p_def)
  then show ?thesis
    using u_start_found_parts[OF assms(2) p_def] by (auto simp: queueTask_def)
qed

lemma u_abort_finishing:
  assumes "state w \<noteq> Finished" and "state (snd (u_abort (Some n) w)) = Finished"
  shows "error (snd (u_abort (Some n) w)) = Some (Error n)"
proof (cases "Some n" w rule: u_abort_cases)
  case (throws e)
  then show ?thesis using assms by simp
next
  case (listener e w3)
  then show ?thesis using assms by (simp add: heap_trace_only_def rolled_back_fields)
next
  case (completed w3)
  then show ?thesis by (simp add: heap_trace_only_def rolled_back_def queueTask_def)
qed

lemma dispatch_and_default_finishing:
  assumes "state w \<noteq> Finished"
    and "state (snd (dispatch_and_default rid ev d w)) = Finished"
  shows "error (snd (dispatch_and_default rid ev d w)) \<noteq> None"
proof -
  let ?ev = "ev\<lparr>eventPath := [TDatabase, TTransaction]\<rparr>"
  let ?w1 = "observe (Dispatched (TRequest rid) ?ev) w"
  obtain r ev1 w1 where de: "dispatchEvent (TRequest rid) ?ev w = (r, ev1, w1)"
    by (cases "dispatchEvent (TRequest rid) ?ev w")
  then have w1: "w1 = ?w1"
    by (rule dispatchEvent_world)
  have s1: "state ?w1 \<noteq> Finished"
    using assms(1) by (simp add: observe_def)
  have ab: "state (snd (u_abort (Some n) ?w1)) = Finished \<Longrightarrow>
      error (snd (u_abort (Some n) ?w1)) \<noteq> None" for n
    using u_abort_finishing[OF s1, of n] by simp
  consider (same) "snd (dispatch_and_default rid ev d w) = ?w1"
    | (aborted) n where "snd (dispatch_and_default rid ev d w) = snd (u_abort (Some n) ?w1)"
  proof (cases r)
    case (Ret u)
    show ?thesis
    proof (cases "\<not> canceled ev1 \<and> d \<noteq> None")
      case True
      then obtain n where "d = Some n" by auto
      then have "snd (dispatch_and_default rid ev d w) = snd (u_abort (Some n) ?w1)"
        using de w1 Ret True by (simp add: dispatch_and_default_def)
      then show ?thesis by (rule aborted)
    next
      case False
      then have "snd (dispatch_and_default rid ev d w) = ?w1"
        using de w1 Ret by (auto simp: dispatch_and_default_def split: option.splits)
      then show ?thesis by (rule same)
    qed
  next
    case (Exn err)
    show ?thesis
    proof (cases "state ?w1 \<noteq> Committing")
      case True
      then have "snd (dispatch_and_default rid ev d w) =
          snd (u_abort (Some ''AbortError'') ?w1)"
        using de w1 Exn by (auto simp: dispatch_and_default_def split: prod.splits res.splits)
      then show ?thesis by (rule aborted)
    next
      case False
      then have "snd (dispatch_and_default rid ev d w) = ?w1"
        using de w1 Exn by (simp add: dispatch_and_default_def)
      then show ?thesis by (rule same)
    qed
  qed
  then show ?thesis
  proof cases
    case same
    then show ?thesis using assms(2) s1 by simp
  next
    case (aborted n)
    then show ?thesis using assms(2) ab[of n] by simp
  qed
qed

lemma run_sourced_finishing:
  assumes "state w \<noteq> Finished"
    and "state (snd (run_sourced operation rid w)) = Finished"
  shows "error (snd (run_sourced operation rid w)) \<noteq> None"
proof -
  obtain x w1 where a: "call_operation operation rid w = (x, w1)"
    by (cases "call_operation operation rid w")
  have "operation_frame w w1"
    using call_operation_frame[of w operation rid] a by simp
  then have s: "state (reactivate (set_request rid f w1)) \<noteq> Finished" for f
    using assms(1) by (simp add: operation_frame_def reactivate_def set_request_def)
  show ?thesis
  proof (cases x)
    case (Ret v)
    let ?w3 = "reactivate (set_request rid
        (\<lambda>r. r\<lparr>readyState := Done, result := v, req_error := None\<rparr>) w1)"
    have e: "run_sourced operation rid w =
        dispatch_and_default rid (FakeEvent ''success'' False False) None ?w3"
      using a Ret by (simp add: run_sourced_def)
    show ?thesis
      using dispatch_and_default_finishing[OF s] assms(2) unfolding e by blast
  next
    case (Exn err)
    let ?w3 = "reactivate (set_request rid
        (\<lambda>r. r\<lparr>readyState := Done, result := Undefined, req_error := Some err\<rparr>) w1)"
    have e: "run_sourced operation rid w =
        dispatch_and_default rid (FakeEvent ''error'' True True) (Some (err_name err)) ?w3"
      using a Exn by (simp add: run_sourced_def)
    show ?thesis
      using dispatch_and_default_finishing[OF s] assms(2) unfolding e by blast
  qed
qed

lemma u_start_finishing:
  assumes "state w \<noteq> Finished" and "state (snd (u_start w)) = Finished"
  shows "error (snd (u_start w)) \<noteq> None \<or>
     (\<exists>rest. trace (snd (u_start w)) = trace w @ rest \<and> filter is_complete rest \<noteq> [])"
proof (cases "drained w")
  case True
  let ?w1 = "w\<lparr>started := True, requests := []\<rparr>"
  have e: "u_start w = finish ?w1"
    using True by (rule u_start_when_drained)
  show ?thesis
  proof (cases "error w = None")
    case True
    then have "trace (snd (u_start w)) = trace w @ [Dispatched TTransaction complete_event]"
      using assms(1) by (simp add: e finish_eq observe_def)
    moreover have "filter is_complete [Dispatched TTransaction complete_event] \<noteq> []"
      by (simp add: complete_event_def)
    ultimately show ?thesis by blast
  next
    case False
    then obtain y where "error w = Some y"
      by auto
    then have "error (snd (u_start w)) = Some y"
      using assms(1) by (simp add: e finish_eq)
    then show ?thesis
      by simp
  qed
next
  case False
  then obtain operation rid q where s:
    "shift_pending (requests w) (heap w) = (Some (operation, rid), q)"
    by (cases "shift_pending (requests w) (heap w)") (auto simp: drained_iff)
  let ?w1 = "w\<lparr>started := True, requests := q\<rparr>"
  define p where "p = (if source (heap w rid) = None then run_plain operation rid ?w1
          else run_sourced operation rid ?w1)"
  have u: "snd (u_start w) = snd p \<or> snd (u_start w) = queueTask RunStart (snd p)"
    by (rule u_start_found_parts[OF s p_def])
  then have sp: "state (snd p) = Finished" and ep: "error (snd (u_start w)) = error (snd p)"
    using assms(2) by (auto simp: queueTask_def)
  have s1: "state ?w1 \<noteq> Finished"
    using assms(1) by simp
  have "source (heap w rid) \<noteq> None"
  proof
    assume "source (heap w rid) = None"
    then have "p = run_plain operation rid ?w1"
      by (simp add: p_def)
    then have "state (snd p) = state ?w1"
      using run_plain_frame[of ?w1 operation rid] by (simp add: operation_frame_def)
    then show False
      using sp s1 by simp
  qed
  then have "p = run_sourced operation rid ?w1"
    unfolding p_def by auto
  then have "error (snd p) \<noteq> None"
    using run_sourced_finishing[OF s1, of operation rid] sp by simp
  then show ?thesis
    using ep by simp
qed

lemma run_error_kept: "error w \<noteq> None \<Longrightarrow> error (run cs w) \<noteq> None"
proof (induction cs arbitrary: w)
  case Nil
  then show ?case by (simp add: run_Nil)
next
  case (Cons c cs)
  have "error (do_call c w) \<noteq> None"
    using Cons.prems by (rule do_call_error_kept)
  then show ?case
    using Cons.IH by (simp add: run_Cons)
qed

lemma u_start_closed_shrinks:
  assumes "closed w"
  shows "state (snd (u_start w)) = Finished \<or>
     length (requests (snd (u_start w))) < length (requests w)"
proof (cases "drained w")
  case True
  then have "u_start w = finish (w\<lparr>started := True, requests := []\<rparr>)"
    by (rule u_start_when_drained)
  then show ?thesis
    by (simp add: finish_state)
next
  case False
  then obtain operation rid q where s:
    "shift_pending (requests w) (heap w) = (Some (operation, rid), q)"
    by (cases "shift_pending (requests w) (heap w)") (auto simp: drained_iff)
  have "state w \<noteq> Active"
    using assms by (auto simp: closed_def)
  then have "requests (snd (u_start w)) = q"
    using s by (rule u_start_closed_requests)
  moreover obtain pre where "requests w = pre @ (operation, rid) # q"
    using shift_pending_Some[OF s] by blast
  ultimately show ?thesis
    by simp
qed

text \<open>The driver run \<open>n\<close> times on a closed transaction with fewer than \<open>n\<close> entries in
  its queue.\<close>

lemma drive_finishes:
  "closed w \<Longrightarrow> length (requests w) < n \<Longrightarrow>
   \<exists>ext. trace (run (replicate n CallStart) w) = trace w @ ext \<and>
         state (run (replicate n CallStart) w) = Finished \<and>
         (state w \<noteq> Finished \<and> error (run (replicate n CallStart) w) = None \<longrightarrow>
            filter is_complete ext \<noteq> [])"
proof (induction n arbitrary: w)
  case 0
  then show ?case by simp
next
  case (Suc n)
  let ?w1 = "snd (u_start w)"
  let ?W = "run (replicate n CallStart) ?w1"
  have r: "run (replicate (Suc n) CallStart) w = ?W"
    by (simp add: run_Cons)
  obtain r1 where t1: "trace ?w1 = trace w @ r1"
    using u_start_trace_grows by blast
  have c1: "closed ?w1"
    using do_call_closed[OF Suc.prems(1), of CallStart] by simp
  show ?case
  proof (cases "state ?w1 = Finished")
    case True
    obtain r2 where t2: "trace ?W = trace ?w1 @ r2"
      using run_trace_grows by blast
    have f: "state ?W = Finished"
      using True by (rule finished_is_terminal)
    have "filter is_complete (r1 @ r2) \<noteq> []"
      if n: "state w \<noteq> Finished" and e: "error ?W = None"
    proof -
      have "error ?w1 = None"
        using e run_error_kept[of ?w1 "replicate n CallStart"] by blast
      then obtain rest where "trace ?w1 = trace w @ rest" "filter is_complete rest \<noteq> []"
        using u_start_finishing[OF n True] by auto
      then show ?thesis
        using t1 by simp
    qed
    then show ?thesis
      unfolding r using t1 t2 f by (intro exI[of _ "r1 @ r2"]) simp
  next
    case False
    then have "length (requests ?w1) < length (requests w)"
      using u_start_closed_shrinks[OF Suc.prems(1)] by simp
    then have "length (requests ?w1) < n"
      using Suc.prems(2) by simp
    then obtain ext where e: "trace ?W = trace ?w1 @ ext" "state ?W = Finished"
      "state ?w1 \<noteq> Finished \<and> error ?W = None \<longrightarrow> filter is_complete ext \<noteq> []"
      using Suc.IH[OF c1] by blast
    show ?thesis
      unfolding r using t1 e False by (intro exI[of _ "r1 @ ext"]) simp
  qed
qed

lemma succeeded_at_fields:
  "state (succeeded_at rid v w2) = (if state w2 = Inactive then Active else state w2)"
  "error (succeeded_at rid v w2) = error w2"
  "tasks (succeeded_at rid v w2) = tasks w2"
  "listeners (succeeded_at rid v w2) = listeners w2"
  "rollbackLog (succeeded_at rid v w2) = rollbackLog w2"
  "requests (succeeded_at rid v w2) = requests w2"
  "trace (succeeded_at rid v w2) = trace w2 @ [Dispatched (TRequest rid) success_event]"
  "heap (succeeded_at rid v w2) rid =
     (heap w2 rid)\<lparr>readyState := Done, result := v, req_error := None\<rparr>"
  by (simp_all add: succeeded_at_def observe_def reactivate_def set_request_def)

lemma executed_closed_fields:
  "state (executed_closed operation rid w) = state w"
  "error (executed_closed operation rid w) = error w"
  "tasks (executed_closed operation rid w) = tasks w"
  "listeners (executed_closed operation rid w) = listeners w"
  "rollbackLog (executed_closed operation rid w) =
     rollbackLog w @ pushed_before (op_acts operation)"
  "requests (executed_closed operation rid w) = requests w"
  "trace (executed_closed operation rid w) = trace w @ [Executed rid]"
  "heap (executed_closed operation rid w) = heap w"
  by (simp_all add: executed_closed_def)

text \<open>A run of the driver on a closed transaction whose listeners do not throw and whose
  queued operations all return.\<close>

lemma u_start_returning:
  assumes "closed w" and "listeners_quiet w"
    and "list_all (\<lambda>x. returns_closed (fst x)) (requests w)"
  shows "error (snd (u_start w)) = error w \<and> listeners (snd (u_start w)) = listeners w \<and>
     list_all (\<lambda>x. returns_closed (fst x)) (requests (snd (u_start w)))"
proof (cases "drained w")
  case True
  then have "u_start w = finish (w\<lparr>started := True, requests := []\<rparr>)"
    by (rule u_start_when_drained)
  then show ?thesis
    by (simp add: finish_eq observe_def)
next
  case False
  then obtain operation rid q where s:
    "shift_pending (requests w) (heap w) = (Some (operation, rid), q)"
    by (cases "shift_pending (requests w) (heap w)") (auto simp: drained_iff)
  let ?w1 = "w\<lparr>started := True, requests := q\<rparr>"
  let ?w2 = "executed_closed operation rid ?w1"
  obtain pre where pre: "requests w = pre @ (operation, rid) # q"
    using shift_pending_Some[OF s] by blast
  have na: "state w \<noteq> Active" and ni: "state w \<noteq> Inactive"
    using assms(1) by (auto simp: closed_def)
  have "returns_closed operation"
    using assms(3) pre by simp
  then obtain v where v: "outcome_closed operation = Ret v"
    by (cases "outcome_closed operation") (simp_all add: returns_closed_def)
  have "state ?w1 \<noteq> Active"
    using na by simp
  then have c: "call_operation operation rid ?w1 = (Ret v, ?w2)"
    using call_operation_closed[of ?w1 operation rid] v by simp
  have q: "list_all (\<lambda>x. returns_closed (fst x)) q"
    using assms(3) pre by simp
  have rq: "requests (snd (u_start w)) = q"
    using na s by (rule u_start_closed_requests)
  have "error (snd (u_start w)) = error w \<and> listeners (snd (u_start w)) = listeners w"
  proof (cases "source (heap w rid) = None")
    case True
    have "u_start w = (Ret (), queueTask RunStart ?w2)"
      using u_start_plain[OF s True c] by simp
    then show ?thesis
      by (simp add: queueTask_def executed_closed_fields)
  next
    case False
    have "quiet (dispatch_chain w (TRequest rid) success_event)"
      using assms(2) by (rule listeners_quiet_chain)
    then have n: "listener_throw (dispatch_chain w (TRequest rid) success_event) = None"
      by (simp add: quiet_listener_throw)
    then have "u_start w = (Ret (), queueTask RunStart (succeeded_at rid v ?w2))"
      using u_start_success[OF s False c] by simp
    then show ?thesis
      by (simp add: queueTask_def succeeded_at_fields executed_closed_fields)
  qed
  then show ?thesis
    using q rq by simp
qed

lemma drive_returning:
  "closed w \<Longrightarrow> listeners_quiet w \<Longrightarrow>
   list_all (\<lambda>x. returns_closed (fst x)) (requests w) \<Longrightarrow>
   error (run (replicate n CallStart) w) = error w"
proof (induction n arbitrary: w)
  case 0
  show ?case by (simp add: run_Nil)
next
  case (Suc n)
  let ?w1 = "snd (u_start w)"
  note u = u_start_returning[OF Suc.prems]
  have c1: "closed ?w1"
    using do_call_closed[OF Suc.prems(1), of CallStart] by simp
  have l1: "listeners_quiet ?w1"
    using u Suc.prems(2) listeners_quiet_cong[of ?w1 w] by simp
  have "error (run (replicate n CallStart) ?w1) = error ?w1"
    using c1 l1 u by (intro Suc.IH) simp_all
  then show ?case
    using u by (simp add: run_Cons)
qed

subsection \<open>The queue is first in, first out\<close>











text \<open>A closed transaction takes no new request: its queue only loses entries, at the
  front.\<close>

lemma u_start_closed_queue:
  assumes "closed w"
  shows "\<exists>k. requests (snd (u_start w)) = drop k (requests w)"
proof (cases "drained w")
  case True
  then have "u_start w = finish (w\<lparr>started := True, requests := []\<rparr>)"
    by (rule u_start_when_drained)
  then have "requests (snd (u_start w)) = []"
    by (simp add: finish_eq observe_def)
  then show ?thesis
    by (intro exI[of _ "length (requests w)"]) simp
next
  case False
  then obtain operation rid q where s:
    "shift_pending (requests w) (heap w) = (Some (operation, rid), q)"
    by (cases "shift_pending (requests w) (heap w)") (auto simp: drained_iff)
  have "state w \<noteq> Active"
    using assms by (auto simp: closed_def)
  then have "requests (snd (u_start w)) = q"
    using s by (rule u_start_closed_requests)
  moreover obtain pre where "requests w = pre @ (operation, rid) # q"
    using shift_pending_Some[OF s] by blast
  ultimately have "requests (snd (u_start w)) = drop (Suc (length pre)) (requests w)"
    by simp
  then show ?thesis by blast
qed

lemma do_call_closed_queue:
  assumes "closed w"
  shows "\<exists>k. requests (do_call c w) = drop k (requests w)"
proof -
  have na: "state w \<noteq> Active"
    using assms by (auto simp: closed_def)
  have same: ?thesis if "requests (do_call c w) = requests w"
    using that by (intro exI[of _ 0]) simp
  show ?thesis
  proof (cases c)
    case (CallExecRequestAsync obj)
    then show ?thesis using same na by (simp add: u_execRequestAsync_inactive)
  next
    case CallAbort
    then show ?thesis using same assms by (simp add: abort_def closed_def)
  next
    case CallCommit
    then show ?thesis using same na by (simp add: commit_def)
  next
    case (CallObjectStore name)
    then show ?thesis using same na by (simp add: objectStore_def)
  next
    case CallStart
    then show ?thesis using u_start_closed_queue[OF assms] by simp
  next
    case Tick
    show ?thesis
    proof (cases "tasks w")
      case Nil
      then show ?thesis using same Tick by (simp add: tick_def)
    next
      case (Cons t ts)
      have cw: "closed (w\<lparr>tasks := ts\<rparr>)"
        using assms by (simp add: closed_def)
      show ?thesis
      proof (cases t)
        case RunStart
        have "run_task RunStart (w\<lparr>tasks := ts\<rparr>) = u_start (w\<lparr>tasks := ts\<rparr>)"
          by (simp add: run_task_def)
        then show ?thesis
          using Tick Cons RunStart u_start_closed_queue[OF cw] by (simp add: tick_def)
      next
        case FireAbort
        then show ?thesis
          using Tick Cons same by (simp add: tick_def fire_abort_eq observe_def)
      qed
    qed
  next
    case (SetRawObjectStores db)
    then show ?thesis using same by simp
  next
    case (SetListeners ls)
    then show ?thesis using same by simp
  next
    case (PushRollbackLog f)
    then show ?thesis using same by simp
  qed
qed

lemma run_closed_queue:
  "closed w \<Longrightarrow> \<exists>k. requests (run cs w) = drop k (requests w)"
proof (induction cs arbitrary: w)
  case Nil
  show ?case
    by (intro exI[of _ 0]) (simp add: run_Nil)
next
  case (Cons c cs)
  obtain k1 where a: "requests (do_call c w) = drop k1 (requests w)"
    using do_call_closed_queue[OF Cons.prems] by blast
  have "closed (do_call c w)"
    using Cons.prems by (rule do_call_closed)
  then obtain k2 where b: "requests (run cs (do_call c w)) = drop k2 (requests (do_call c w))"
    using Cons.IH by blast
  have "requests (run (c # cs) w) = drop (k1 + k2) (requests w)"
    using a b by (simp add: run_Cons add.commute)
  then show ?case by blast
qed

section \<open>The claims\<close>

text \<open>
  C2 (as amended). The abort procedure calls the entries of the rollback log in reverse
  order of their appending, up to and including the first entry that throws: the trace
  of \<^verbatim>\<open>_abort\<close> is the trace before it, the calls of those entries in that order, and
  then events on requests only. When no entry throws, these are all the entries. When an
  entry throws, its exception leaves \<^verbatim>\<open>_abort\<close> at once: the entries appended before it
  are not called and nothing else of the procedure happens.
\<close>

theorem rollback_reverse_until_throw:
  "(\<exists>rest. trace (snd (u_abort n w)) =
             trace w @ compensations (entries_called (rev (rollbackLog w))) @ rest \<and>
           list_all (\<lambda>x. \<forall>i. x \<noteq> Compensated i) rest) \<and>
   ((\<forall>f\<in>set (rollbackLog w). rb_throws f = None) \<longrightarrow>
      entries_called (rev (rollbackLog w)) = rev (rollbackLog w)) \<and>
   (\<forall>e. first_throw (rev (rollbackLog w)) = Some e \<longrightarrow>
      u_abort n w =
        (Exn e, w\<lparr>rollbackLog := rev (rollbackLog w),
                  trace := trace w @ compensations (entries_called (rev (rollbackLog w)))\<rparr>))"
proof (intro conjI allI impI)
  obtain rest where r: "trace (snd (u_abort n w)) =
      trace w @ compensations (entries_called (rev (rollbackLog w))) @ rest"
    "list_all is_request_event rest"
    using u_abort_trace[of n w] by auto
  have "list_all (\<lambda>x. \<forall>i. x \<noteq> Compensated i) rest"
    using r(2) request_event_kinds by (auto simp: list_all_iff)
  with r(1) show "\<exists>rest. trace (snd (u_abort n w)) =
             trace w @ compensations (entries_called (rev (rollbackLog w))) @ rest \<and>
           list_all (\<lambda>x. \<forall>i. x \<noteq> Compensated i) rest"
    by blast
next
  assume "\<forall>f\<in>set (rollbackLog w). rb_throws f = None"
  then have "first_throw (rev (rollbackLog w)) = None"
    by (simp add: first_throw_None)
  then show "entries_called (rev (rollbackLog w)) = rev (rollbackLog w)"
    by (rule entries_called_all)
next
  fix e
  assume "first_throw (rev (rollbackLog w)) = Some e"
  then show "u_abort n w =
        (Exn e, w\<lparr>rollbackLog := rev (rollbackLog w),
                  trace := trace w @ compensations (entries_called (rev (rollbackLog w)))\<rparr>)"
    by (rule u_abort_throwing)
qed

text \<open>The theorem at a log of three entries none of which throws, and at one whose
  second entry throws.\<close>

theorem rollback_reverse_until_throw_witness:
  "list_all (\<lambda>f. rb_throws f = None) (rollbackLog tx_logged) \<and>
   first_throw (rev (rollbackLog tx_throwing_log)) = Some (Error ''boom'') \<and>
   (\<exists>rest. trace (snd (u_abort None tx_logged)) =
      [Compensated 3, Compensated 2, Compensated 1] @ rest) \<and>
   trace (snd (u_abort None tx_throwing_log)) = [Compensated 3, Compensated 2]"
proof -
  have h1: "\<forall>f\<in>set (rollbackLog tx_logged). rb_throws f = None"
    by (simp add: tx_logged_def)
  have h2: "first_throw (rev (rollbackLog tx_throwing_log)) = Some (Error ''boom'')"
    by (simp add: tx_throwing_log_def)
  have t: "trace tx_logged = []" "trace tx_throwing_log = []"
    by (simp_all add: tx_logged_def tx_throwing_log_def tx_new_def FDBTransaction_def)
  have c: "compensations (rev (rollbackLog tx_logged)) = [Compensated 3, Compensated 2, Compensated 1]"
     "compensations (entries_called (rev (rollbackLog tx_throwing_log))) = [Compensated 3, Compensated 2]"
    by (simp_all add: tx_logged_def tx_throwing_log_def compensations_def)
  show ?thesis
    using rollback_reverse_until_throw[of None tx_logged]
      rollback_reverse_until_throw[of None tx_throwing_log] h1 h2 t c
    by (auto simp: list_all_iff)
qed

text \<open>C2 as stated fails: with the log \<open>[c1, c2, c3]\<close> where \<open>c2\<close> throws, \<open>c3\<close> and \<open>c2\<close>
  are called and \<open>c1\<close> never is.\<close>

theorem rollback_unconditional_counterexample:
  "rollbackLog tx_throwing_log = [Rollback 1 None, Rollback 2 (Some (Error ''boom'')), Rollback 3 None] \<and>
   fst (u_abort None tx_throwing_log) = Exn (Error ''boom'') \<and>
   trace (snd (u_abort None tx_throwing_log)) = [Compensated 3, Compensated 2] \<and>
   Compensated 1 \<notin> set (trace (snd (u_abort None tx_throwing_log)))"
  by code_simp

text \<open>
  C5 (as amended). \<^verbatim>\<open>abort()\<close> called when the state is committing or finished throws
  \<open>InvalidStateError\<close> and changes nothing. Called when the state is active or inactive,
  it passes the guard and runs the abort procedure from the active state. When the
  procedure returns, the state is finished; it does return when no compensating entry
  and no listener throws. When it does not return, the state is active, not finished:
  the exception of the first compensating entry that throws leaves \<^verbatim>\<open>abort()\<close>, after
  the entries up to that one have been called and nothing else has been done; and
  when no entry throws, an exception of a listener of a request's "error" event leaves
  the second loop of the procedure and \<^verbatim>\<open>abort()\<close>.
\<close>

theorem abort_guard:
  "((state w = Committing \<or> state w = Finished) \<longrightarrow> abort w = (Exn InvalidStateError, w)) \<and>
   ((state w = Active \<or> state w = Inactive) \<longrightarrow>
      abort w = u_abort None (w\<lparr>state := Active\<rparr>) \<and>
      (fst (abort w) = Ret () \<longrightarrow> state (snd (abort w)) = Finished) \<and>
      (fst (abort w) \<noteq> Ret () \<longrightarrow> state (snd (abort w)) = Active) \<and>
      (list_all (\<lambda>f. rb_throws f = None) (rollbackLog w) \<and> listeners_quiet w \<longrightarrow>
         fst (abort w) = Ret () \<and> state (snd (abort w)) = Finished) \<and>
      (\<forall>e. first_throw (rev (rollbackLog w)) = Some e \<longrightarrow>
         abort w =
           (Exn e, w\<lparr>state := Active, rollbackLog := rev (rollbackLog w),
                     trace := trace w @
                       compensations (entries_called (rev (rollbackLog w)))\<rparr>)) \<and>
      (first_throw (rev (rollbackLog w)) = None \<longrightarrow>
         abort w =
           (case abort_requests (requests w) (rolled_back None (w\<lparr>state := Active\<rparr>)) of
              (Exn e, w3) \<Rightarrow> (Exn e, w3)
            | (Ret _, w3) \<Rightarrow> (Ret (), (queueTask FireAbort w3)\<lparr>state := Finished\<rparr>))))"
proof (intro conjI impI allI)
  assume "state w = Committing \<or> state w = Finished"
  then show "abort w = (Exn InvalidStateError, w)"
    by (auto simp: abort_def)
next
  assume "state w = Active \<or> state w = Inactive"
  then show "abort w = u_abort None (w\<lparr>state := Active\<rparr>)"
    by (auto simp: abort_def)
next
  assume s: "state w = Active \<or> state w = Inactive" and r: "fst (abort w) = Ret ()"
  have a: "abort w = u_abort None (w\<lparr>state := Active\<rparr>)"
    using s by (auto simp: abort_def)
  then have "fst (u_abort None (w\<lparr>state := Active\<rparr>)) = Ret ()"
    using r by simp
  then show "state (snd (abort w)) = Finished"
    using u_abort_returns a by simp
next
  assume s: "state w = Active \<or> state w = Inactive" and r: "fst (abort w) \<noteq> Ret ()"
  have a: "abort w = u_abort None (w\<lparr>state := Active\<rparr>)"
    using s by (auto simp: abort_def)
  obtain e where "fst (u_abort None (w\<lparr>state := Active\<rparr>)) = Exn e"
    using r a by (cases "fst (u_abort None (w\<lparr>state := Active\<rparr>))") auto
  then have "state (snd (u_abort None (w\<lparr>state := Active\<rparr>))) = state (w\<lparr>state := Active\<rparr>)"
    using u_abort_fails by blast
  then show "state (snd (abort w)) = Active"
    using a by simp
next
  assume s: "state w = Active \<or> state w = Inactive"
    and q: "list_all (\<lambda>f. rb_throws f = None) (rollbackLog w) \<and> listeners_quiet w"
  let ?w = "w\<lparr>state := Active\<rparr>"
  have a: "abort w = u_abort None ?w"
    using s by (auto simp: abort_def)
  have "first_throw (rev (rollbackLog ?w)) = None"
    using q by (simp add: first_throw_None list_all_iff)
  moreover have "listeners_quiet ?w"
    using q listeners_quiet_cong[of ?w w] by simp
  ultimately have r: "fst (u_abort None ?w) = Ret ()"
    by (rule u_abort_succeeds)
  then show "fst (abort w) = Ret ()"
    using a by simp
  show "state (snd (abort w)) = Finished"
    using u_abort_returns[OF r] a by simp
next
  fix e
  assume s: "state w = Active \<or> state w = Inactive"
    and t: "first_throw (rev (rollbackLog w)) = Some e"
  let ?w = "w\<lparr>state := Active\<rparr>"
  have a: "abort w = u_abort None ?w"
    using s by (auto simp: abort_def)
  have "first_throw (rev (rollbackLog ?w)) = Some e"
    using t by simp
  then have "u_abort None ?w =
      (Exn e, ?w\<lparr>rollbackLog := rev (rollbackLog ?w),
                 trace := trace ?w @ compensations (entries_called (rev (rollbackLog ?w)))\<rparr>)"
    by (rule u_abort_throwing)
  then show "abort w =
      (Exn e, w\<lparr>state := Active, rollbackLog := rev (rollbackLog w),
                trace := trace w @ compensations (entries_called (rev (rollbackLog w)))\<rparr>)"
    using a by simp
next
  assume s: "state w = Active \<or> state w = Inactive"
    and t: "first_throw (rev (rollbackLog w)) = None"
  let ?w = "w\<lparr>state := Active\<rparr>"
  have a: "abort w = u_abort None ?w"
    using s by (auto simp: abort_def)
  have "first_throw (rev (rollbackLog ?w)) = None"
    using t by simp
  then have "u_abort None ?w =
     (case abort_requests (requests ?w) (rolled_back None ?w) of
        (Exn e, w3) \<Rightarrow> (Exn e, w3)
      | (Ret _, w3) \<Rightarrow> (Ret (), (queueTask FireAbort w3)\<lparr>state := Finished\<rparr>))"
    by (rule u_abort_no_throw)
  then show "abort w =
      (case abort_requests (requests w) (rolled_back None (w\<lparr>state := Active\<rparr>)) of
         (Exn e, w3) \<Rightarrow> (Exn e, w3)
       | (Ret _, w3) \<Rightarrow> (Ret (), (queueTask FireAbort w3)\<lparr>state := Finished\<rparr>))"
    using a by simp
qed

text \<open>The theorem at a new (active) transaction with three compensating entries, at the
  same transaction once finished, and at an active transaction whose second
  compensating entry throws.\<close>

theorem abort_guard_witness:
  "state tx_logged = Active \<and>
   list_all (\<lambda>f. rb_throws f = None) (rollbackLog tx_logged) \<and> listeners_quiet tx_logged \<and>
   fst (abort tx_logged) = Ret () \<and> state (snd (abort tx_logged)) = Finished \<and>
   abort (snd (abort tx_logged)) = (Exn InvalidStateError, snd (abort tx_logged)) \<and>
   state tx_throwing_log = Active \<and>
   first_throw (rev (rollbackLog tx_throwing_log)) = Some (Error ''boom'') \<and>
   fst (abort tx_throwing_log) = Exn (Error ''boom'') \<and>
   state (snd (abort tx_throwing_log)) = Active"
proof -
  have h1: "state tx_logged = Active"
    by (simp add: tx_logged_def tx_new_def FDBTransaction_def)
  have h2: "list_all (\<lambda>f. rb_throws f = None) (rollbackLog tx_logged)"
    by (simp add: tx_logged_def)
  have h3: "listeners_quiet tx_logged"
    by (simp add: listeners_quiet_def quiet_def tx_logged_def tx_new_def FDBTransaction_def)
  have f: "fst (abort tx_logged) = Ret () \<and> state (snd (abort tx_logged)) = Finished"
    using abort_guard[of tx_logged] h1 h2 h3 by blast
  then have g: "abort (snd (abort tx_logged)) = (Exn InvalidStateError, snd (abort tx_logged))"
    using abort_guard[of "snd (abort tx_logged)"] by blast
  have k1: "state tx_throwing_log = Active"
    by (simp add: tx_throwing_log_def tx_new_def FDBTransaction_def)
  have k2: "first_throw (rev (rollbackLog tx_throwing_log)) = Some (Error ''boom'')"
    by (simp add: tx_throwing_log_def)
  have "abort tx_throwing_log =
      (Exn (Error ''boom''),
       tx_throwing_log\<lparr>state := Active, rollbackLog := rev (rollbackLog tx_throwing_log),
         trace := trace tx_throwing_log @
           compensations (entries_called (rev (rollbackLog tx_throwing_log)))\<rparr>)"
    using abort_guard[of tx_throwing_log] k1 k2 by blast
  then have k3: "fst (abort tx_throwing_log) = Exn (Error ''boom'') \<and>
      state (snd (abort tx_throwing_log)) = Active"
    by simp
  show ?thesis
    using h1 h2 h3 f g k1 k2 k3 by blast
qed

text \<open>C5 as stated fails. An active transaction whose second compensating entry throws:
  \<^verbatim>\<open>abort()\<close> passes the guard and throws, and the state is active, not finished; no
  "abort" event is scheduled. The same happens when no entry throws and a listener of
  the "error" event of a pending request throws.\<close>

theorem abort_throws_counterexample:
  "state tx_throwing_log = Active \<and>
   fst (abort tx_throwing_log) = Exn (Error ''boom'') \<and>
   state (snd (abort tx_throwing_log)) = Active \<and>
   tasks (snd (abort tx_throwing_log)) = [] \<and>
   state tx_failing_loud = Active \<and>
   fst (abort tx_failing_loud) = Exn (Error ''ListenerError'') \<and>
   state (snd (abort tx_failing_loud)) = Active \<and>
   tasks (snd (abort tx_failing_loud)) = []"
  by code_simp

text \<open>
  C6. The abort procedure dispatches no "abort" event itself: the "abort" events of the
  trace are the same after \<^verbatim>\<open>_abort\<close> as before. When the procedure returns, it has set
  the state to finished and has put the task that dispatches the event at the back of
  the task queue; it does return when no compensating entry and no listener throws.
  That task, when a later tick runs it, dispatches the "abort" event on the transaction
  with the path \<open>[database]\<close>; the state is still finished then, whatever was called in
  between.
\<close>

theorem abort_event_deferred:
  "abort_events (snd (u_abort n w)) = abort_events w \<and>
   (fst (u_abort n w) = Ret () \<longrightarrow>
      state (snd (u_abort n w)) = Finished \<and>
      tasks (snd (u_abort n w)) = tasks w @ [FireAbort] \<and>
      state (run cs (snd (u_abort n w))) = Finished) \<and>
   (list_all (\<lambda>f. rb_throws f = None) (rollbackLog w) \<and> listeners_quiet w \<longrightarrow>
      fst (u_abort n w) = Ret ()) \<and>
   (tasks w1 = FireAbort # ts \<longrightarrow>
      trace (snd (tick w1)) = trace w1 @ [Dispatched TTransaction abort_event] \<and>
      tasks (snd (tick w1)) = ts \<and> state (snd (tick w1)) = state w1)"
proof (intro conjI impI)
  obtain rest where r: "trace (snd (u_abort n w)) =
      trace w @ compensations (entries_called (rev (rollbackLog w))) @ rest"
    "list_all is_request_event rest"
    using u_abort_trace[of n w] by auto
  have "filter is_abort_event rest = []"
    using r(2) request_event_kinds by (auto simp: list_all_iff filter_empty_conv)
  moreover have "filter is_abort_event (compensations fs) = []" for fs
    by (simp add: compensations_def filter_empty_conv)
  ultimately show "abort_events (snd (u_abort n w)) = abort_events w"
    using r(1) by (simp add: abort_events_def)
next
  assume r: "fst (u_abort n w) = Ret ()"
  show f: "state (snd (u_abort n w)) = Finished"
    using u_abort_returns[OF r] by simp
  show "tasks (snd (u_abort n w)) = tasks w @ [FireAbort]"
    using u_abort_returns[OF r] by simp
  show "state (run cs (snd (u_abort n w))) = Finished"
    using f by (rule finished_is_terminal)
next
  assume q: "list_all (\<lambda>f. rb_throws f = None) (rollbackLog w) \<and> listeners_quiet w"
  then have "first_throw (rev (rollbackLog w)) = None"
    by (simp add: first_throw_None list_all_iff)
  then show "fst (u_abort n w) = Ret ()"
    using q u_abort_succeeds by blast
next
  assume t: "tasks w1 = FireAbort # ts"
  then have e: "tick w1 = run_task FireAbort (w1\<lparr>tasks := ts\<rparr>)"
    by (simp add: tick_def)
  show "trace (snd (tick w1)) = trace w1 @ [Dispatched TTransaction abort_event]"
    by (simp add: e fire_abort_eq observe_def)
  show "tasks (snd (tick w1)) = ts"
    by (simp add: e fire_abort_eq observe_def)
  show "state (snd (tick w1)) = state w1"
    by (simp add: e fire_abort_eq observe_def)
qed

text \<open>The theorem at the abort of a new transaction with three compensating entries and
  at the tick that follows it: the trace of the abort holds the three compensations and
  no event, the tick adds the "abort" event.\<close>

theorem abort_event_deferred_witness:
  "list_all (\<lambda>f. rb_throws f = None) (rollbackLog tx_logged) \<and> listeners_quiet tx_logged \<and>
   fst (u_abort None tx_logged) = Ret () \<and>
   tasks (snd (u_abort None tx_logged)) = [FireAbort] \<and>
   abort_events (snd (u_abort None tx_logged)) = [] \<and>
   state (snd (u_abort None tx_logged)) = Finished \<and>
   state (run [Tick] (snd (u_abort None tx_logged))) = Finished \<and>
   trace (snd (tick (snd (u_abort None tx_logged)))) =
     trace (snd (u_abort None tx_logged)) @ [Dispatched TTransaction abort_event]"
proof -
  have h2: "list_all (\<lambda>f. rb_throws f = None) (rollbackLog tx_logged)"
    by (simp add: tx_logged_def)
  have h3: "listeners_quiet tx_logged"
    by (simp add: listeners_quiet_def quiet_def tx_logged_def tx_new_def FDBTransaction_def)
  have t0: "tasks tx_logged = []" "abort_events tx_logged = []"
    by (simp_all add: abort_events_def tx_logged_def tx_new_def FDBTransaction_def)
  have r: "fst (u_abort None tx_logged) = Ret ()"
    using abort_event_deferred[of None tx_logged] h2 h3 by simp
  have t1: "tasks (snd (u_abort None tx_logged)) = FireAbort # []"
    using abort_event_deferred[of None tx_logged] r t0 by simp
  show ?thesis
    using abort_event_deferred[of None tx_logged "[Tick]" "snd (u_abort None tx_logged)" "[]"]
      h2 h3 r t0 t1
    by simp
qed

text \<open>
  C8. Take a transaction as its constructor made it, for any store names, mode, database
  and listeners, and let anything be called on it, in any order, the registry of the
  database changing at will. If it is then active and \<open>name\<close> is not one of the store
  names it was opened on, \<^verbatim>\<open>objectStore(name)\<close> throws \<open>NotFoundError\<close> and changes
  nothing.
\<close>

theorem objectStore_outside_scope:
  assumes "w = run cs (FDBTransaction storeNames m db ls)"
    and "state w = Active" and "name \<notin> set storeNames"
  shows "objectStore name w = (Exn NotFoundError, w)"
proof -
  have "scope w = set storeNames" "cache_in_scope w"
    using run_cache_in_scope[OF new_cache_in_scope, of cs storeNames m db ls] assms(1)
    by (simp_all add: FDBTransaction_def)
  then have "objectStoresCache w name = None" "name \<notin> scope w"
    using assms(3) by (auto simp: cache_in_scope_def)
  then show ?thesis
    using assms(2) by (simp add: objectStore_def Let_def)
qed

text \<open>The theorem at a transaction opened on the store A of a database that is then given
  a store B as well, after a successful \<^verbatim>\<open>objectStore("A")\<close>: \<^verbatim>\<open>objectStore("B")\<close> throws
  although the database has the store.\<close>

theorem objectStore_outside_scope_witness:
  "state tx_other_store = Active \<and> ''B'' \<notin> set [''A''] \<and>
   rawObjectStores tx_other_store ''B'' = Some 1 \<and>
   objectStore ''B'' tx_other_store = (Exn NotFoundError, tx_other_store)"
proof -
  have w: "tx_other_store =
      run [SetRawObjectStores [(''A'', 0), (''B'', 1)], CallObjectStore ''A'']
        (FDBTransaction [''A''] Readwrite (map_of [(''A'', 0)]) (listeners_of []))"
    by (simp add: tx_other_store_def tx_new_def)
  have s: "state tx_other_store = Active"
    by code_simp
  have n: "''B'' \<notin> set [''A'']"
    by simp
  have d: "rawObjectStores tx_other_store ''B'' = Some 1"
    by code_simp
  show ?thesis
    using objectStore_outside_scope[OF w s n] s n d by blast
qed

text \<open>
  C9. On an active transaction, for a name of its scope that names a store of the
  database, \<^verbatim>\<open>objectStore\<close> returns a handle, and a second call with the same name returns
  the identical handle (the same identity, on the same raw store) from the cache and
  changes nothing, whatever has become of the database's registry in between.
\<close>

theorem objectStore_idempotent:
  assumes "state w = Active" and "name \<in> scope w" and "rawObjectStores w name = Some raw"
  shows "\<exists>os w1. objectStore name w = (Ret os, w1) \<and>
           objectStoresCache w1 name = Some os \<and>
           objectStore name w1 = (Ret os, w1) \<and>
           objectStore name (w1\<lparr>rawObjectStores := db\<rparr>) = (Ret os, w1\<lparr>rawObjectStores := db\<rparr>)"
proof (cases "objectStoresCache w name")
  case (Some os)
  then show ?thesis
    using assms(1) by (simp add: objectStore_def)
next
  case None
  then show ?thesis
    using assms by (simp add: objectStore_def Let_def)
qed

text \<open>The theorem at a new transaction on the store A: the first call makes the handle
  0, the second returns it.\<close>

theorem objectStore_idempotent_witness:
  "state tx_new = Active \<and> ''A'' \<in> scope tx_new \<and> rawObjectStores tx_new ''A'' = Some 0 \<and>
   fst (objectStore ''A'' tx_new) = Ret (FDBObjectStore 0 0) \<and>
   fst (objectStore ''A'' (snd (objectStore ''A'' tx_new))) = Ret (FDBObjectStore 0 0)"
proof -
  have h: "state tx_new = Active" "''A'' \<in> scope tx_new" "rawObjectStores tx_new ''A'' = Some 0"
    by (simp_all add: tx_new_def FDBTransaction_def)
  obtain os w1 where o: "objectStore ''A'' tx_new = (Ret os, w1)"
    "objectStore ''A'' w1 = (Ret os, w1)"
    using objectStore_idempotent[OF h] by blast
  have "fst (objectStore ''A'' tx_new) = Ret (FDBObjectStore 0 0)"
    by (simp add: objectStore_def Let_def tx_new_def FDBTransaction_def)
  then show ?thesis
    using h o by simp
qed

text \<open>
  C4 (as amended). Let the driver find the request at \<open>rid\<close>, which has a source, and let
  its operation throw \<open>err\<close>, leaving the world \<open>w2\<close>. Then after \<^verbatim>\<open>_start\<close> the request is
  done, its result is undefined and its error is \<open>err\<close>; the operation was called and
  then the bubbling, cancelable "error" event with the path \<open>[database, transaction]\<close>
  was dispatched on the request. What follows depends on the listeners called for the
  event.

  If none of them throws and none cancels the event, \<^verbatim>\<open>_start\<close> goes on with
  \<^verbatim>\<open>_abort(err.name)\<close>, which records an error of that name once the compensations have
  run without throwing. If none of them throws and one cancels the event, nothing is
  aborted: no compensation is called, the error of the transaction and the rollback log
  are as the operation left them, the state is as before (active if it was inactive),
  and the driver is scheduled again.

  If one of them throws, the cancelling does not count: unless the transaction is
  committing, \<^verbatim>\<open>_start\<close> goes on with \<^verbatim>\<open>_abort("AbortError")\<close>, which records an error of
  the name \<open>AbortError\<close>, not of the name of \<open>err\<close>, once the compensations have run
  without throwing; and \<^verbatim>\<open>_start\<close> throws what the listener threw (or what the abort
  procedure throws), and the driver is not scheduled again.
\<close>

theorem failed_operation_default_action:
  assumes "shift_pending (requests w) (heap w) = (Some (operation, rid), q)"
    and "source (heap w rid) \<noteq> None"
    and "call_operation operation rid (w\<lparr>started := True, requests := q\<rparr>) = (Exn err, w2)"
  shows "readyState (heap (snd (u_start w)) rid) = Done \<and>
     result (heap (snd (u_start w)) rid) = Undefined \<and>
     req_error (heap (snd (u_start w)) rid) = Some err \<and>
     (\<exists>rest. trace (snd (u_start w)) =
        trace w @ [Executed rid, Dispatched (TRequest rid) error_event] @ rest) \<and>
     (quiet (dispatch_chain w (TRequest rid) error_event) \<and>
      \<not> list_ex h_prevents (dispatch_chain w (TRequest rid) error_event) \<longrightarrow>
        u_start w =
          (case u_abort (Some (err_name err)) (failed_at rid err w2) of
             (Exn e, w4) \<Rightarrow> (Exn e, w4)
           | (Ret _, w4) \<Rightarrow> (Ret (), queueTask RunStart w4)) \<and>
        (list_all (\<lambda>f. rb_throws f = None) (rollbackLog w2) \<longrightarrow>
           error (snd (u_start w)) = Some (Error (err_name err)))) \<and>
     (quiet (dispatch_chain w (TRequest rid) error_event) \<and>
      list_ex h_prevents (dispatch_chain w (TRequest rid) error_event) \<longrightarrow>
        fst (u_start w) = Ret () \<and>
        trace (snd (u_start w)) =
          trace w @ [Executed rid, Dispatched (TRequest rid) error_event] \<and>
        error (snd (u_start w)) = error w \<and>
        rollbackLog (snd (u_start w)) = rollbackLog w2 \<and>
        state (snd (u_start w)) = (if state w = Inactive then Active else state w) \<and>
        tasks (snd (u_start w)) = tasks w @ [RunStart]) \<and>
     (\<forall>e2. listener_throw (dispatch_chain w (TRequest rid) error_event) = Some e2 \<longrightarrow>
        u_start w =
          (if state w \<noteq> Committing then
             (case u_abort (Some ''AbortError'') (failed_at rid err w2) of
                (Exn e3, w4) \<Rightarrow> (Exn e3, w4)
              | (Ret _, w4) \<Rightarrow> (Exn e2, w4))
           else (Exn e2, failed_at rid err w2)) \<and>
        fst (u_start w) \<noteq> Ret () \<and>
        tasks (snd (u_start w)) \<noteq> tasks w @ [RunStart] \<and>
        (state w \<noteq> Committing \<and> list_all (\<lambda>f. rb_throws f = None) (rollbackLog w2) \<longrightarrow>
           error (snd (u_start w)) = Some AbortError))"
proof -
  let ?w1 = "w\<lparr>started := True, requests := q\<rparr>"
  let ?w3 = "failed_at rid err w2"
  let ?C = "dispatch_chain w (TRequest rid) error_event"
  note f = failed_at_fields[OF assms(3)]
  note shape = u_start_failed_shape[OF assms]
  have ft: "first_throw (rev (rollbackLog ?w3)) = None"
    if "list_all (\<lambda>f. rb_throws f = None) (rollbackLog w2)"
    using that by (simp add: first_throw_None list_all_iff f(5))
  have unprevented: "u_start w =
        (case u_abort (Some (err_name err)) ?w3 of
           (Exn e, w4) \<Rightarrow> (Exn e, w4)
         | (Ret _, w4) \<Rightarrow> (Ret (), queueTask RunStart w4)) \<and>
      (list_all (\<lambda>f. rb_throws f = None) (rollbackLog w2) \<longrightarrow>
         error (snd (u_start w)) = Some (Error (err_name err)))"
    if "quiet ?C \<and> \<not> list_ex h_prevents ?C"
  proof -
    have e: "u_start w =
        (case u_abort (Some (err_name err)) ?w3 of
           (Exn e, w4) \<Rightarrow> (Exn e, w4)
         | (Ret _, w4) \<Rightarrow> (Ret (), queueTask RunStart w4))"
      using u_start_failure[OF assms] that by simp
    obtain y w4 where a: "u_abort (Some (err_name err)) ?w3 = (y, w4)"
      by (cases "u_abort (Some (err_name err)) ?w3")
    have "error (snd (u_start w)) = error w4"
      using e a by (cases y) (simp_all add: queueTask_def)
    moreover have "error w4 = Some (Error (err_name err))"
      if "list_all (\<lambda>f. rb_throws f = None) (rollbackLog w2)"
      using u_abort_error[OF ft[OF that], of "Some (err_name err)"] a by simp
    ultimately show ?thesis
      using e by simp
  qed
  have prevented: "fst (u_start w) = Ret () \<and>
      trace (snd (u_start w)) =
        trace w @ [Executed rid, Dispatched (TRequest rid) error_event] \<and>
      error (snd (u_start w)) = error w \<and>
      rollbackLog (snd (u_start w)) = rollbackLog w2 \<and>
      state (snd (u_start w)) = (if state w = Inactive then Active else state w) \<and>
      tasks (snd (u_start w)) = tasks w @ [RunStart]"
    if "quiet ?C \<and> list_ex h_prevents ?C"
  proof -
    have e: "u_start w = (Ret (), queueTask RunStart ?w3)"
      using u_start_failure[OF assms] that by simp
    show ?thesis
      using f by (simp add: e queueTask_def)
  qed
  have thrown: "u_start w =
        (if state w \<noteq> Committing then
           (case u_abort (Some ''AbortError'') ?w3 of
              (Exn e3, w4) \<Rightarrow> (Exn e3, w4)
            | (Ret _, w4) \<Rightarrow> (Exn e2, w4))
         else (Exn e2, ?w3)) \<and>
      fst (u_start w) \<noteq> Ret () \<and>
      tasks (snd (u_start w)) \<noteq> tasks w @ [RunStart] \<and>
      (state w \<noteq> Committing \<and> list_all (\<lambda>f. rb_throws f = None) (rollbackLog w2) \<longrightarrow>
         error (snd (u_start w)) = Some AbortError)"
    if t: "listener_throw ?C = Some e2" for e2
  proof -
    have e: "u_start w =
        (if state w \<noteq> Committing then
           (case u_abort (Some ''AbortError'') ?w3 of
              (Exn e3, w4) \<Rightarrow> (Exn e3, w4)
            | (Ret _, w4) \<Rightarrow> (Exn e2, w4))
         else (Exn e2, ?w3))"
      by (rule u_start_listener_throws[OF assms t])
    obtain y w4 where a: "u_abort (Some ''AbortError'') ?w3 = (y, w4)"
      by (cases "u_abort (Some ''AbortError'') ?w3")
    have r: "fst (u_start w) \<noteq> Ret ()"
      using e a by (cases y) auto
    have s: "state w \<noteq> Committing \<Longrightarrow> snd (u_start w) = w4"
      using e a by (cases y) auto
    have "tasks w4 = tasks ?w3 \<or> tasks w4 = tasks ?w3 @ [FireAbort]"
    proof (cases y)
      case (Ret u)
      then have "fst (u_abort (Some ''AbortError'') ?w3) = Ret ()"
        using a by simp
      then show ?thesis
        using u_abort_returns[of "Some ''AbortError''" ?w3] a by simp
    next
      case (Exn e3)
      then have "fst (u_abort (Some ''AbortError'') ?w3) = Exn e3"
        using a by simp
      then show ?thesis
        using u_abort_fails[of "Some ''AbortError''" ?w3 e3] a by simp
    qed
    then have k: "tasks (snd (u_start w)) \<noteq> tasks w @ [RunStart]"
      using e s f(3) by (cases "state w = Committing") auto
    have "error (snd (u_start w)) = Some AbortError"
      if "state w \<noteq> Committing \<and> list_all (\<lambda>f. rb_throws f = None) (rollbackLog w2)"
    proof -
      have "error (snd (u_abort (Some ''AbortError'') ?w3)) = Some (Error ''AbortError'')"
        using u_abort_error[OF ft, of "Some ''AbortError''"] that by simp
      then show ?thesis
        using s a that by (simp add: AbortError_def)
    qed
    then show ?thesis
      using e r k by blast
  qed
  show ?thesis
    using shape unprevented prevented thrown by blast
qed

text \<open>The theorem at a transaction whose only request fails with \<open>ConstraintError\<close>:
  without listeners the transaction records an error of that name; with a listener that
  cancels the event its error stays unset; with a listener that throws it records an
  error of the name \<open>AbortError\<close> and \<^verbatim>\<open>_start\<close> throws.\<close>

theorem failed_operation_default_action_witness:
  "shift_pending (requests tx_failing) (heap tx_failing) = (Some (op_fail, 0), []) \<and>
   source (heap tx_failing 0) = Some src_A \<and>
   fst (call_operation op_fail 0 (tx_failing\<lparr>started := True, requests := []\<rparr>)) =
     Exn (Error ''ConstraintError'') \<and>
   quiet (dispatch_chain tx_failing (TRequest 0) error_event) \<and>
   \<not> list_ex h_prevents (dispatch_chain tx_failing (TRequest 0) error_event) \<and>
   req_error (heap (snd (u_start tx_failing)) 0) = Some (Error ''ConstraintError'') \<and>
   error (snd (u_start tx_failing)) = Some (Error ''ConstraintError'') \<and>
   quiet (dispatch_chain tx_failing_prevented (TRequest 0) error_event) \<and>
   list_ex h_prevents (dispatch_chain tx_failing_prevented (TRequest 0) error_event) \<and>
   error (snd (u_start tx_failing_prevented)) = None \<and>
   listener_throw (dispatch_chain tx_failing_loud (TRequest 0) error_event) =
     Some (Error ''ListenerError'') \<and>
   state tx_failing_loud = Active \<and>
   fst (u_start tx_failing_loud) \<noteq> Ret () \<and>
   error (snd (u_start tx_failing_loud)) = Some AbortError"
proof -
  let ?e = "Error ''ConstraintError''"
  let ?w1 = "tx_failing\<lparr>started := True, requests := []\<rparr>"
  let ?v1 = "tx_failing_prevented\<lparr>started := True, requests := []\<rparr>"
  let ?u1 = "tx_failing_loud\<lparr>started := True, requests := []\<rparr>"
  have a1: "shift_pending (requests tx_failing) (heap tx_failing) = (Some (op_fail, 0), [])"
    by code_simp
  have a2: "source (heap tx_failing 0) = Some src_A"
    by code_simp
  have a3: "fst (call_operation op_fail 0 ?w1) = Exn ?e"
    by (simp add: call_operation_def op_fail_def)
  have a4: "quiet (dispatch_chain tx_failing (TRequest 0) error_event)"
    by code_simp
  have a5: "\<not> list_ex h_prevents (dispatch_chain tx_failing (TRequest 0) error_event)"
    by code_simp
  have a6: "list_all (\<lambda>f. rb_throws f = None) (rollbackLog (snd (call_operation op_fail 0 ?w1)))"
    by code_simp
  have b1: "shift_pending (requests tx_failing_prevented) (heap tx_failing_prevented) =
      (Some (op_fail, 0), [])"
    by code_simp
  have b2: "source (heap tx_failing_prevented 0) \<noteq> None"
    by code_simp
  have b3: "fst (call_operation op_fail 0 ?v1) = Exn ?e"
    by (simp add: call_operation_def op_fail_def)
  have b4: "quiet (dispatch_chain tx_failing_prevented (TRequest 0) error_event)"
    by code_simp
  have b5: "list_ex h_prevents (dispatch_chain tx_failing_prevented (TRequest 0) error_event)"
    by code_simp
  have b6: "error tx_failing_prevented = None"
    by code_simp
  have d1: "shift_pending (requests tx_failing_loud) (heap tx_failing_loud) =
      (Some (op_fail, 0), [])"
    by code_simp
  have d2: "source (heap tx_failing_loud 0) \<noteq> None"
    by code_simp
  have d3: "fst (call_operation op_fail 0 ?u1) = Exn ?e"
    by (simp add: call_operation_def op_fail_def)
  have d4: "listener_throw (dispatch_chain tx_failing_loud (TRequest 0) error_event) =
      Some (Error ''ListenerError'')"
    by code_simp
  have d5: "state tx_failing_loud = Active"
    by code_simp
  have d6: "list_all (\<lambda>f. rb_throws f = None) (rollbackLog (snd (call_operation op_fail 0 ?u1)))"
    by code_simp
  have c1: "call_operation op_fail 0 ?w1 = (Exn ?e, snd (call_operation op_fail 0 ?w1))"
    using a3 by (metis prod.collapse)
  have c2: "call_operation op_fail 0 ?v1 = (Exn ?e, snd (call_operation op_fail 0 ?v1))"
    using b3 by (metis prod.collapse)
  have c3: "call_operation op_fail 0 ?u1 = (Exn ?e, snd (call_operation op_fail 0 ?u1))"
    using d3 by (metis prod.collapse)
  have a2': "source (heap tx_failing 0) \<noteq> None"
    using a2 by simp
  have "req_error (heap (snd (u_start tx_failing)) 0) = Some ?e \<and>
      error (snd (u_start tx_failing)) = Some (Error (err_name ?e))"
    using failed_operation_default_action[OF a1 a2' c1] a4 a5 a6 by blast
  then have r1: "req_error (heap (snd (u_start tx_failing)) 0) = Some ?e \<and>
      error (snd (u_start tx_failing)) = Some ?e"
    by simp
  have "error (snd (u_start tx_failing_prevented)) = error tx_failing_prevented"
    using failed_operation_default_action[OF b1 b2 c2] b4 b5 by blast
  then have r2: "error (snd (u_start tx_failing_prevented)) = None"
    using b6 by simp
  have d5': "state tx_failing_loud \<noteq> Committing"
    using d5 by simp
  have r3: "fst (u_start tx_failing_loud) \<noteq> Ret () \<and>
      error (snd (u_start tx_failing_loud)) = Some AbortError"
    using failed_operation_default_action[OF d1 d2 c3] d4 d5' d6 by blast
  show ?thesis
    using a1 a2 a3 a4 a5 b4 b5 r1 r2 d4 d5 r3 by blast
qed

text \<open>C4 as stated fails. The only request of the transaction fails with
  \<open>ConstraintError\<close>, and a listener of its "error" event throws without cancelling the
  event: the transaction is aborted with an error of the name \<open>AbortError\<close>, not of the
  name of the failure. And when the listener cancels the event and then throws, the
  abort is not suppressed: the three compensations run and the transaction is
  finished.\<close>

theorem listener_throws_counterexample:
  "\<not> list_ex h_prevents (dispatch_chain tx_failing_loud (TRequest 0) error_event) \<and>
   fst (u_start tx_failing_loud) = Exn (Error ''ListenerError'') \<and>
   req_error (heap (snd (u_start tx_failing_loud)) 0) = Some (Error ''ConstraintError'') \<and>
   error (snd (u_start tx_failing_loud)) = Some (Error ''AbortError'') \<and>
   list_ex h_prevents (dispatch_chain tx_failing_cancel_loud (TRequest 0) error_event) \<and>
   fst (u_start tx_failing_cancel_loud) = Exn (Error ''ListenerError'') \<and>
   error (snd (u_start tx_failing_cancel_loud)) = Some (Error ''AbortError'') \<and>
   state (snd (u_start tx_failing_cancel_loud)) = Finished \<and>
   trace (snd (u_start tx_failing_cancel_loud)) =
     [Executed 0, Dispatched (TRequest 0) error_event,
      Compensated 3, Compensated 2, Compensated 1]"
  by code_simp

text \<open>
  C10 (as amended). Let the transaction be committing: a direct \<^verbatim>\<open>abort()\<close> throws
  \<open>InvalidStateError\<close>. Let the driver find the request at \<open>rid\<close>, which has a source, and
  let its operation throw \<open>err\<close>, leaving the world \<open>w2\<close>.

  If no listener called for the "error" event cancels it and none throws, \<^verbatim>\<open>_start\<close>
  goes on with \<^verbatim>\<open>_abort(err.name)\<close> although the transaction is committing. When
  moreover no compensating entry and no listener at all throws, \<^verbatim>\<open>_start\<close> returns
  after the whole abort procedure: the compensations have run, all of them, in
  reverse order, right after the "error" event; the error of the transaction has the
  name of \<open>err\<close>; every request of the queue is done; the state is finished; the task of
  the "abort" event is queued, before the next run of the driver.

  If a listener called for the "error" event throws, nothing is aborted, because the
  transaction is committing: \<^verbatim>\<open>_start\<close> throws what the listener threw right after the
  dispatch; no compensation is called, no error is recorded, the state is still
  committing, and neither the "abort" event nor the next run of the driver is
  scheduled.
\<close>

theorem failure_while_committing:
  assumes "state w = Committing"
    and "shift_pending (requests w) (heap w) = (Some (operation, rid), q)"
    and "source (heap w rid) \<noteq> None"
    and "call_operation operation rid (w\<lparr>started := True, requests := q\<rparr>) = (Exn err, w2)"
  shows "abort w = (Exn InvalidStateError, w) \<and>
     (quiet (dispatch_chain w (TRequest rid) error_event) \<and>
      \<not> list_ex h_prevents (dispatch_chain w (TRequest rid) error_event) \<longrightarrow>
        u_start w =
          (case u_abort (Some (err_name err)) (failed_at rid err w2) of
             (Exn e, w4) \<Rightarrow> (Exn e, w4)
           | (Ret _, w4) \<Rightarrow> (Ret (), queueTask RunStart w4)) \<and>
        (listeners_quiet w \<and> list_all (\<lambda>f. rb_throws f = None) (rollbackLog w2) \<longrightarrow>
           fst (u_start w) = Ret () \<and>
           (\<exists>rest. trace (snd (u_start w)) =
              trace w @ [Executed rid, Dispatched (TRequest rid) error_event] @
              compensations (rev (rollbackLog w2)) @ rest \<and> list_all is_request_event rest) \<and>
           rollbackLog (snd (u_start w)) = rev (rollbackLog w2) \<and>
           error (snd (u_start w)) = Some (Error (err_name err)) \<and>
           list_all (\<lambda>x. done_at (snd (u_start w)) (snd x)) (requests (snd (u_start w))) \<and>
           state (snd (u_start w)) = Finished \<and>
           tasks (snd (u_start w)) = tasks w @ [FireAbort, RunStart])) \<and>
     (\<forall>e2. listener_throw (dispatch_chain w (TRequest rid) error_event) = Some e2 \<longrightarrow>
        u_start w = (Exn e2, failed_at rid err w2) \<and>
        trace (snd (u_start w)) =
          trace w @ [Executed rid, Dispatched (TRequest rid) error_event] \<and>
        rollbackLog (snd (u_start w)) = rollbackLog w2 \<and>
        error (snd (u_start w)) = error w \<and>
        state (snd (u_start w)) = Committing \<and>
        tasks (snd (u_start w)) = tasks w)"
proof -
  let ?w3 = "failed_at rid err w2"
  let ?n = "Some (err_name err)"
  let ?C = "dispatch_chain w (TRequest rid) error_event"
  note f = failed_at_fields[OF assms(4)]
  have g: "abort w = (Exn InvalidStateError, w)"
    using assms(1) by (simp add: abort_def)
  have u: "u_start w =
      (case u_abort ?n ?w3 of
         (Exn e, w4) \<Rightarrow> (Exn e, w4)
       | (Ret _, w4) \<Rightarrow> (Ret (), queueTask RunStart w4))"
    if "quiet ?C \<and> \<not> list_ex h_prevents ?C"
    using u_start_failure[OF assms(2,3,4)] that by simp
  have full: "fst (u_start w) = Ret () \<and>
     (\<exists>rest. trace (snd (u_start w)) =
        trace w @ [Executed rid, Dispatched (TRequest rid) error_event] @
        compensations (rev (rollbackLog w2)) @ rest \<and> list_all is_request_event rest) \<and>
     rollbackLog (snd (u_start w)) = rev (rollbackLog w2) \<and>
     error (snd (u_start w)) = Some (Error (err_name err)) \<and>
     list_all (\<lambda>x. done_at (snd (u_start w)) (snd x)) (requests (snd (u_start w))) \<and>
     state (snd (u_start w)) = Finished \<and>
     tasks (snd (u_start w)) = tasks w @ [FireAbort, RunStart]"
    if c: "quiet ?C \<and> \<not> list_ex h_prevents ?C"
      and h: "listeners_quiet w \<and> list_all (\<lambda>f. rb_throws f = None) (rollbackLog w2)"
  proof -
    have ft: "first_throw (rev (rollbackLog ?w3)) = None"
      using h by (simp add: first_throw_None list_all_iff f(5))
    have "listeners_quiet ?w3"
      using h listeners_quiet_cong[of ?w3 w] f(4) by simp
    then have r: "fst (u_abort ?n ?w3) = Ret ()"
      using ft u_abort_succeeds by blast
    obtain w4 where a: "u_abort ?n ?w3 = (Ret (), w4)"
      using r by (cases "u_abort ?n ?w3") auto
    have e: "u_start w = (Ret (), queueTask RunStart w4)"
      using u[OF c] a by simp
    have p: "state w4 = Finished" "tasks w4 = tasks ?w3 @ [FireAbort]"
      "error w4 = Some (Error (err_name err))" "rollbackLog w4 = rev (rollbackLog ?w3)"
      "requests w4 = requests ?w3"
      using u_abort_returns[OF r] a by simp_all
    obtain rest where t: "trace w4 =
        trace ?w3 @ compensations (entries_called (rev (rollbackLog ?w3))) @ rest"
      "list_all is_request_event rest"
      using u_abort_trace[of ?n ?w3] a by auto
    have m: "\<forall>x\<in>set (requests w4). done_at w4 (snd x)"
      using u_abort_marks[OF r] a p(5) by simp
    have "list_all (\<lambda>x. done_at (queueTask RunStart w4) (snd x)) (requests w4)"
      using m by (simp add: list_all_iff done_at_def queueTask_def)
    then show ?thesis
      using e p t f ft assms(1) by (simp add: queueTask_def entries_called_all)
  qed
  have thrown: "u_start w = (Exn e2, ?w3) \<and>
      trace (snd (u_start w)) =
        trace w @ [Executed rid, Dispatched (TRequest rid) error_event] \<and>
      rollbackLog (snd (u_start w)) = rollbackLog w2 \<and>
      error (snd (u_start w)) = error w \<and>
      state (snd (u_start w)) = Committing \<and>
      tasks (snd (u_start w)) = tasks w"
    if t: "listener_throw ?C = Some e2" for e2
  proof -
    have e: "u_start w = (Exn e2, ?w3)"
      using u_start_listener_throws[OF assms(2,3,4) t] assms(1) by simp
    show ?thesis
      using f assms(1) by (simp add: e)
  qed
  show ?thesis
    using g u full thrown by blast
qed

text \<open>The theorem at the committing transaction with three compensating entries whose
  only request fails with \<open>ConstraintError\<close>, without listeners, and at the same
  transaction with a listener of the "error" event that throws.\<close>

theorem failure_while_committing_witness:
  "state tx_failing_committing = Committing \<and>
   shift_pending (requests tx_failing_committing) (heap tx_failing_committing) =
     (Some (op_fail, 0), []) \<and>
   source (heap tx_failing_committing 0) = Some src_A \<and>
   fst (call_operation op_fail 0 (tx_failing_committing\<lparr>started := True, requests := []\<rparr>)) =
     Exn (Error ''ConstraintError'') \<and>
   listeners_quiet tx_failing_committing \<and>
   quiet (dispatch_chain tx_failing_committing (TRequest 0) error_event) \<and>
   \<not> list_ex h_prevents (dispatch_chain tx_failing_committing (TRequest 0) error_event) \<and>
   state (snd (u_start tx_failing_committing)) = Finished \<and>
   error (snd (u_start tx_failing_committing)) = Some (Error ''ConstraintError'') \<and>
   tasks (snd (u_start tx_failing_committing)) = [FireAbort, RunStart] \<and>
   abort tx_failing_committing = (Exn InvalidStateError, tx_failing_committing) \<and>
   state tx_failing_committing_loud = Committing \<and>
   listener_throw (dispatch_chain tx_failing_committing_loud (TRequest 0) error_event) =
     Some (Error ''ListenerError'') \<and>
   fst (u_start tx_failing_committing_loud) = Exn (Error ''ListenerError'') \<and>
   state (snd (u_start tx_failing_committing_loud)) = Committing \<and>
   error (snd (u_start tx_failing_committing_loud)) = None \<and>
   tasks (snd (u_start tx_failing_committing_loud)) = []"
proof -
  let ?e = "Error ''ConstraintError''"
  let ?w1 = "tx_failing_committing\<lparr>started := True, requests := []\<rparr>"
  let ?u1 = "tx_failing_committing_loud\<lparr>started := True, requests := []\<rparr>"
  have a0: "state tx_failing_committing = Committing"
    by code_simp
  have a1: "shift_pending (requests tx_failing_committing) (heap tx_failing_committing) =
      (Some (op_fail, 0), [])"
    by code_simp
  have a2: "source (heap tx_failing_committing 0) = Some src_A"
    by code_simp
  have a3: "fst (call_operation op_fail 0 ?w1) = Exn ?e"
    by (simp add: call_operation_def op_fail_def)
  have l: "listeners tx_failing_committing = listeners_of []"
    by (simp add: tx_failing_committing_def tx_failing_def tx_logged_def tx_new_def
        FDBTransaction_def commit_def u_execRequestAsync_def)
  have a4: "listeners_quiet tx_failing_committing"
    by (simp add: listeners_quiet_def quiet_def l)
  have a5: "\<not> list_ex h_prevents (dispatch_chain tx_failing_committing (TRequest 0) error_event)"
    by code_simp
  have a6: "list_all (\<lambda>f. rb_throws f = None) (rollbackLog (snd (call_operation op_fail 0 ?w1)))"
    by code_simp
  have a7: "quiet (dispatch_chain tx_failing_committing (TRequest 0) error_event)"
    by code_simp
  have t: "tasks tx_failing_committing = []"
    by code_simp
  have c1: "call_operation op_fail 0 ?w1 = (Exn ?e, snd (call_operation op_fail 0 ?w1))"
    using a3 by (metis prod.collapse)
  have a2': "source (heap tx_failing_committing 0) \<noteq> None"
    using a2 by simp
  have "state (snd (u_start tx_failing_committing)) = Finished \<and>
      error (snd (u_start tx_failing_committing)) = Some (Error (err_name ?e)) \<and>
      tasks (snd (u_start tx_failing_committing)) = tasks tx_failing_committing @ [FireAbort, RunStart] \<and>
      abort tx_failing_committing = (Exn InvalidStateError, tx_failing_committing)"
    using failure_while_committing[OF a0 a1 a2' c1] a4 a5 a6 a7 by blast
  then have r1: "state (snd (u_start tx_failing_committing)) = Finished \<and>
      error (snd (u_start tx_failing_committing)) = Some ?e \<and>
      tasks (snd (u_start tx_failing_committing)) = [FireAbort, RunStart] \<and>
      abort tx_failing_committing = (Exn InvalidStateError, tx_failing_committing)"
    using t by simp
  have b0: "state tx_failing_committing_loud = Committing"
    by code_simp
  have b1: "shift_pending (requests tx_failing_committing_loud)
      (heap tx_failing_committing_loud) = (Some (op_fail, 0), [])"
    by code_simp
  have b2: "source (heap tx_failing_committing_loud 0) \<noteq> None"
    by code_simp
  have b3: "fst (call_operation op_fail 0 ?u1) = Exn ?e"
    by (simp add: call_operation_def op_fail_def)
  have b4: "listener_throw (dispatch_chain tx_failing_committing_loud (TRequest 0) error_event) =
      Some (Error ''ListenerError'')"
    by code_simp
  have b5: "error tx_failing_committing_loud = None" "tasks tx_failing_committing_loud = []"
    by code_simp+
  have c2: "call_operation op_fail 0 ?u1 = (Exn ?e, snd (call_operation op_fail 0 ?u1))"
    using b3 by (metis prod.collapse)
  have k: "u_start tx_failing_committing_loud =
        (Exn (Error ''ListenerError''),
         failed_at 0 ?e (snd (call_operation op_fail 0 ?u1)))"
    using failure_while_committing[OF b0 b1 b2 c2] b4 by blast
  have k1: "fst (u_start tx_failing_committing_loud) = Exn (Error ''ListenerError'')"
    by (simp only: k fst_conv)
  have "error (snd (u_start tx_failing_committing_loud)) = error tx_failing_committing_loud \<and>
      state (snd (u_start tx_failing_committing_loud)) = Committing \<and>
      tasks (snd (u_start tx_failing_committing_loud)) = tasks tx_failing_committing_loud"
    using failure_while_committing[OF b0 b1 b2 c2] b4 by blast
  then have "state (snd (u_start tx_failing_committing_loud)) = Committing \<and>
      error (snd (u_start tx_failing_committing_loud)) = None \<and>
      tasks (snd (u_start tx_failing_committing_loud)) = []"
    using b5 by simp
  then have r2: "fst (u_start tx_failing_committing_loud) = Exn (Error ''ListenerError'') \<and>
      state (snd (u_start tx_failing_committing_loud)) = Committing \<and>
      error (snd (u_start tx_failing_committing_loud)) = None \<and>
      tasks (snd (u_start tx_failing_committing_loud)) = []"
    using k1 by blast
  show ?thesis
    using a0 a1 a2 a3 a4 a5 a7 r1 b0 b4 r2 by blast
qed

text \<open>C10 as stated fails. The committing transaction has three compensating entries and
  one request, which fails with \<open>ConstraintError\<close>; a listener of the "error" event
  throws and does not cancel the event. The event is not cancelled and yet nothing of
  the abort procedure happens: \<^verbatim>\<open>_start\<close> throws, no compensating entry is called, the
  rollback log is as it was, no error is recorded, the state is still committing, and
  no task is queued.\<close>

theorem committing_listener_throws_counterexample:
  "state tx_failing_committing_loud = Committing \<and>
   shift_pending (requests tx_failing_committing_loud) (heap tx_failing_committing_loud) =
     (Some (op_fail, 0), []) \<and>
   op_outcome op_fail = Throws (Error ''ConstraintError'') \<and>
   \<not> list_ex h_prevents (dispatch_chain tx_failing_committing_loud (TRequest 0) error_event) \<and>
   fst (u_start tx_failing_committing_loud) = Exn (Error ''ListenerError'') \<and>
   trace (snd (u_start tx_failing_committing_loud)) =
     [Executed 0, Dispatched (TRequest 0) error_event] \<and>
   rollbackLog (snd (u_start tx_failing_committing_loud)) =
     [Rollback 1 None, Rollback 2 None, Rollback 3 None] \<and>
   error (snd (u_start tx_failing_committing_loud)) = None \<and>
   state (snd (u_start tx_failing_committing_loud)) = Committing \<and>
   tasks (snd (u_start tx_failing_committing_loud)) = []"
  by code_simp

text \<open>
  C3 (as amended). Take a transaction as its constructor made it and let anything be
  called on it, in any order. At most one "complete" event has been dispatched. If the
  error of the transaction is set, none has been and none ever will be. If the queue is
  drained while the transaction is not finished and its error is unset, the run of
  \<^verbatim>\<open>_start\<close> dispatches the one "complete" event, and whatever is called afterwards,
  there is exactly one. If the transaction is already finished when the queue is
  drained, as after \<^verbatim>\<open>abort()\<close>, \<^verbatim>\<open>_start\<close> dispatches nothing and no "complete" event
  is dispatched afterwards.
\<close>

theorem complete_exactly_once:
  assumes "w = run cs (FDBTransaction storeNames m db ls)"
  shows "completes w \<le> 1 \<and>
     (error w \<noteq> None \<longrightarrow> completes w = 0 \<and> completes (run ds w) = 0) \<and>
     (drained w \<and> state w \<noteq> Finished \<and> error w = None \<longrightarrow>
        completes w = 0 \<and> completes (snd (u_start w)) = 1 \<and>
        completes (run ds (snd (u_start w))) = 1) \<and>
     (state w = Finished \<longrightarrow>
        completes (snd (u_start w)) = completes w \<and>
        completes (run ds (snd (u_start w))) = completes w)"
proof -
  have i: "complete_once w"
    using assms run_complete_once[OF new_complete_once] by simp
  have a: "completes w \<le> 1"
    using i by (auto simp: complete_once_def)
  have b: "completes w = 0 \<and> completes (run ds w) = 0" if "error w \<noteq> None"
    using that i no_complete_after[of w ds] by (auto simp: complete_once_def)
  have c: "completes w = 0 \<and> completes (snd (u_start w)) = 1 \<and>
      completes (run ds (snd (u_start w))) = 1"
    if d: "drained w" "state w \<noteq> Finished" "error w = None"
  proof -
    have z: "completes w = 0"
      using i d(2) by (auto simp: complete_once_def)
    have "completes (snd (u_start w)) = Suc (completes w) \<and> state (snd (u_start w)) = Finished"
      using d by (simp add: u_start_when_drained finish_eq observe_def completes_def
          complete_event_def)
    then show ?thesis
      using z no_complete_after[of "snd (u_start w)" ds] by simp
  qed
  have d: "completes (snd (u_start w)) = completes w \<and>
      completes (run ds (snd (u_start w))) = completes w" if f: "state w = Finished"
  proof -
    have "completes (run (CallStart # ds) w) = completes w"
      "completes (run [CallStart] w) = completes w"
      using f no_complete_after by simp_all
    then show ?thesis
      by (simp add: run_Cons run_Nil)
  qed
  show ?thesis
    using a b c d by blast
qed

text \<open>The theorem at a new transaction (drained, not finished, no error), whose first
  \<^verbatim>\<open>_start\<close> dispatches the one "complete" event.\<close>

theorem complete_exactly_once_witness:
  "drained tx_new \<and> state tx_new = Active \<and> error tx_new = None \<and>
   completes tx_new = 0 \<and> completes (snd (u_start tx_new)) = 1 \<and>
   completes (run [CallStart, Tick] (snd (u_start tx_new))) = 1"
proof -
  have w: "tx_new = run [] (FDBTransaction [''A''] Readwrite (map_of [(''A'', 0)]) (listeners_of []))"
    by (simp add: tx_new_def run_Nil)
  have h: "drained tx_new" "state tx_new = Active" "error tx_new = None"
    by (simp_all add: drained_def tx_new_def FDBTransaction_def)
  have "state tx_new \<noteq> Finished"
    using h(2) by simp
  then show ?thesis
    using complete_exactly_once[OF w, of "[CallStart, Tick]"] h by blast
qed

text \<open>C3 as stated fails: after \<^verbatim>\<open>abort()\<close> on a new transaction the queue is drained and
  the error is unset, yet the run of \<^verbatim>\<open>_start\<close> and the ticks that follow dispatch no
  "complete" event (the second tick dispatches the "abort" event).\<close>

theorem complete_after_abort_counterexample:
  "drained tx_aborted \<and> error tx_aborted = None \<and> state tx_aborted = Finished \<and>
   completes (run [CallStart] tx_aborted) = 0 \<and>
   error (run [CallStart, Tick, Tick] tx_aborted) = None \<and>
   requests (run [CallStart, Tick, Tick] tx_aborted) = [] \<and>
   tasks (run [CallStart, Tick, Tick] tx_aborted) = [] \<and>
   completes (run [CallStart, Tick, Tick] tx_aborted) = 0 \<and>
   trace (run [CallStart, Tick, Tick] tx_aborted) = [Dispatched TTransaction abort_event]"
  by code_simp

text \<open>
  C7. \<^verbatim>\<open>commit()\<close> throws \<open>InvalidStateError\<close> and changes nothing unless the state is
  active; from the active state it sets the state to committing and does nothing else:
  the queue is as it was and nothing is dispatched.

  The driver then goes on as before. If a request is pending in the queue, the next run
  of \<^verbatim>\<open>_start\<close> takes the first one off the queue and calls its operation: the operation's
  pushes on the rollback log are made (up to a call of \<^verbatim>\<open>_execRequestAsync\<close>, which
  throws because the transaction takes no new request), and the operation ends as
  \<open>outcome_closed\<close> says. For a request without a source nothing else happens. For a
  request with a source whose operation returns \<open>v\<close>, the request is done with the
  result \<open>v\<close>, the "success" event is dispatched on it, and the state is still
  committing; if its operation throws \<open>err\<close>, the request is done with the error \<open>err\<close>
  and the "error" event is dispatched on it. No event is dispatched on the
  transaction in that run.

  Whatever is called after the commit, the queue takes no new entry and loses entries
  at the front only: it is a final part of the queue at the commit. And if a "complete"
  event is dispatched, then the operation of every request that was pending in the
  queue at the commit has been called before it. And when the driver has run more often than the queue was long at
  the commit, the transaction is finished; if its error is unset then, the "complete"
  event has been dispatched, after the operation of every request that was pending at
  the commit was called; and its error is unset then if it was unset at the commit, no
  listener throws and the operations of the queue all return.
\<close>

theorem commit_drains_queue:
  "(state w \<noteq> Active \<longrightarrow> commit w = (Exn InvalidStateError, w)) \<and>
   (state w = Active \<longrightarrow>
      commit w = (Ret (), w\<lparr>state := Committing\<rparr>) \<and>
      (\<forall>operation rid q.
         shift_pending (requests w) (heap w) = (Some (operation, rid), q) \<longrightarrow>
         call_operation operation rid (w\<lparr>state := Committing, started := True, requests := q\<rparr>) =
           (outcome_closed operation,
            executed_closed operation rid
              (w\<lparr>state := Committing, started := True, requests := q\<rparr>)) \<and>
         requests (snd (u_start (snd (commit w)))) = q \<and>
         (\<exists>rest. trace (snd (u_start (snd (commit w)))) = trace w @ Executed rid # rest \<and>
                 no_tx_event rest) \<and>
         (source (heap w rid) = None \<longrightarrow>
            u_start (snd (commit w)) =
              (case outcome_closed operation of
                 Ret v \<Rightarrow>
                   (Ret (), queueTask RunStart (executed_closed operation rid
                      (w\<lparr>state := Committing, started := True, requests := q\<rparr>)))
               | Exn e \<Rightarrow>
                   (Exn e, executed_closed operation rid
                      (w\<lparr>state := Committing, started := True, requests := q\<rparr>)))) \<and>
         (source (heap w rid) \<noteq> None \<longrightarrow>
            (\<forall>v. outcome_closed operation = Ret v \<longrightarrow>
               u_start (snd (commit w)) =
                 (case listener_throw (dispatch_chain w (TRequest rid) success_event) of
                    None \<Rightarrow>
                      (Ret (), queueTask RunStart (succeeded_at rid v
                         (executed_closed operation rid
                            (w\<lparr>state := Committing, started := True, requests := q\<rparr>))))
                  | Some e \<Rightarrow>
                      (Exn e, succeeded_at rid v
                         (executed_closed operation rid
                            (w\<lparr>state := Committing, started := True, requests := q\<rparr>)))) \<and>
               readyState (heap (snd (u_start (snd (commit w)))) rid) = Done \<and>
               result (heap (snd (u_start (snd (commit w)))) rid) = v \<and>
               rollbackLog (snd (u_start (snd (commit w)))) =
                 rollbackLog w @ pushed_before (op_acts operation) \<and>
               state (snd (u_start (snd (commit w)))) = Committing) \<and>
            (\<forall>err. outcome_closed operation = Exn err \<longrightarrow>
               readyState (heap (snd (u_start (snd (commit w)))) rid) = Done \<and>
               result (heap (snd (u_start (snd (commit w)))) rid) = Undefined \<and>
               req_error (heap (snd (u_start (snd (commit w)))) rid) = Some err \<and>
               (\<exists>rest. trace (snd (u_start (snd (commit w)))) =
                  trace w @ [Executed rid, Dispatched (TRequest rid) error_event] @ rest)))) \<and>
      (\<exists>k. requests (run cs (snd (commit w))) = drop k (requests w)) \<and>
      (\<exists>ext. trace (run cs (snd (commit w))) = trace w @ ext \<and>
         (filter is_complete ext \<noteq> [] \<longrightarrow>
            (\<forall>x\<in>set (requests w). \<not> done_at w (snd x) \<longrightarrow> executed_first ext (snd x)))) \<and>
      (\<forall>n. length (requests w) < n \<longrightarrow>
         (\<exists>ext. trace (run (replicate n CallStart) (snd (commit w))) = trace w @ ext \<and>
            state (run (replicate n CallStart) (snd (commit w))) = Finished \<and>
            (error (run (replicate n CallStart) (snd (commit w))) = None \<longrightarrow>
               filter is_complete ext \<noteq> [] \<and>
               (\<forall>x\<in>set (requests w). \<not> done_at w (snd x) \<longrightarrow> executed_first ext (snd x))) \<and>
            (error w = None \<and> listeners_quiet w \<and>
             list_all (\<lambda>x. returns_closed (fst x)) (requests w) \<longrightarrow>
               error (run (replicate n CallStart) (snd (commit w))) = None))))"
proof -
  let ?wc = "w\<lparr>state := Committing\<rparr>"
  have guard: "commit w = (Exn InvalidStateError, w)" if "state w \<noteq> Active"
    using that by (simp add: commit_def)
  have sets: "commit w = (Ret (), ?wc)" if "state w = Active"
    using that by (simp add: commit_def)
  have c: "closed ?wc"
    by (simp add: closed_def)
  have served_all: "executed_first ext (snd x)"
    if e: "trace (run ds ?wc) = trace ?wc @ ext"
      and x: "x \<in> set (requests w)" "\<not> done_at w (snd x)"
      and f: "filter is_complete ext \<noteq> []"
    for ds ext x
  proof -
    have "waiting ?wc (snd x)"
      using x by (auto simp: waiting_def done_at_def)
    then have "served (snd x) [] ?wc"
      by (simp add: served_def)
    then obtain ext' where e': "trace (run ds ?wc) = trace ?wc @ ext'"
      "served (snd x) ([] @ ext') (run ds ?wc)"
      using run_served[OF c, of "snd x" "[]" ds] by blast
    have "ext' = ext"
      using e e'(1) by simp
    then show ?thesis
      using e'(2) f by (simp add: served_def)
  qed
  have step: "call_operation operation rid (w\<lparr>state := Committing, started := True, requests := q\<rparr>) =
           (outcome_closed operation,
            executed_closed operation rid
              (w\<lparr>state := Committing, started := True, requests := q\<rparr>)) \<and>
         requests (snd (u_start ?wc)) = q \<and>
         (\<exists>rest. trace (snd (u_start ?wc)) = trace w @ Executed rid # rest \<and>
                 no_tx_event rest) \<and>
         (source (heap w rid) = None \<longrightarrow>
            u_start ?wc =
              (case outcome_closed operation of
                 Ret v \<Rightarrow>
                   (Ret (), queueTask RunStart (executed_closed operation rid
                      (w\<lparr>state := Committing, started := True, requests := q\<rparr>)))
               | Exn e \<Rightarrow>
                   (Exn e, executed_closed operation rid
                      (w\<lparr>state := Committing, started := True, requests := q\<rparr>)))) \<and>
         (source (heap w rid) \<noteq> None \<longrightarrow>
            (\<forall>v. outcome_closed operation = Ret v \<longrightarrow>
               u_start ?wc =
                 (case listener_throw (dispatch_chain w (TRequest rid) success_event) of
                    None \<Rightarrow>
                      (Ret (), queueTask RunStart (succeeded_at rid v
                         (executed_closed operation rid
                            (w\<lparr>state := Committing, started := True, requests := q\<rparr>))))
                  | Some e \<Rightarrow>
                      (Exn e, succeeded_at rid v
                         (executed_closed operation rid
                            (w\<lparr>state := Committing, started := True, requests := q\<rparr>)))) \<and>
               readyState (heap (snd (u_start ?wc)) rid) = Done \<and>
               result (heap (snd (u_start ?wc)) rid) = v \<and>
               rollbackLog (snd (u_start ?wc)) =
                 rollbackLog w @ pushed_before (op_acts operation) \<and>
               state (snd (u_start ?wc)) = Committing) \<and>
            (\<forall>err. outcome_closed operation = Exn err \<longrightarrow>
               readyState (heap (snd (u_start ?wc)) rid) = Done \<and>
               result (heap (snd (u_start ?wc)) rid) = Undefined \<and>
               req_error (heap (snd (u_start ?wc)) rid) = Some err \<and>
               (\<exists>rest. trace (snd (u_start ?wc)) =
                  trace w @ [Executed rid, Dispatched (TRequest rid) error_event] @ rest)))"
    if s: "shift_pending (requests w) (heap w) = (Some (operation, rid), q)"
    for operation rid q
  proof -
    let ?w1 = "w\<lparr>state := Committing, started := True, requests := q\<rparr>"
    let ?w2 = "executed_closed operation rid ?w1"
    have s': "shift_pending (requests ?wc) (heap ?wc) = (Some (operation, rid), q)"
      using s by simp
    have w1: "?wc\<lparr>started := True, requests := q\<rparr> = ?w1"
      by simp
    have co: "call_operation operation rid ?w1 = (outcome_closed operation, ?w2)"
      by (rule call_operation_closed) simp
    have co': "call_operation operation rid (?wc\<lparr>started := True, requests := q\<rparr>) =
        (outcome_closed operation, ?w2)"
      using co by simp
    have rq: "requests (snd (u_start ?wc)) = q"
      by (rule u_start_closed_requests[OF _ s']) simp
    have tr: "\<exists>rest. trace (snd (u_start ?wc)) = trace w @ Executed rid # rest \<and>
        no_tx_event rest"
      using u_start_executes[OF s'] by simp
    have dc: "dispatch_chain ?wc (TRequest rid) ev = dispatch_chain w (TRequest rid) ev" for ev
      by (rule dispatch_chain_listeners) simp
    have plain: "u_start ?wc =
        (case outcome_closed operation of
           Ret v \<Rightarrow> (Ret (), queueTask RunStart ?w2)
         | Exn e \<Rightarrow> (Exn e, ?w2))"
      if "source (heap w rid) = None"
    proof -
      have "source (heap ?wc rid) = None"
        using that by simp
      then show ?thesis
        by (rule u_start_plain[OF s' _ co'])
    qed
    have good: "u_start ?wc =
          (case listener_throw (dispatch_chain w (TRequest rid) success_event) of
             None \<Rightarrow> (Ret (), queueTask RunStart (succeeded_at rid v ?w2))
           | Some e \<Rightarrow> (Exn e, succeeded_at rid v ?w2)) \<and>
        readyState (heap (snd (u_start ?wc)) rid) = Done \<and>
        result (heap (snd (u_start ?wc)) rid) = v \<and>
        rollbackLog (snd (u_start ?wc)) = rollbackLog w @ pushed_before (op_acts operation) \<and>
        state (snd (u_start ?wc)) = Committing"
      if src: "source (heap w rid) \<noteq> None" and v: "outcome_closed operation = Ret v" for v
    proof -
      have src': "source (heap ?wc rid) \<noteq> None"
        using src by simp
      have co2: "call_operation operation rid (?wc\<lparr>started := True, requests := q\<rparr>) =
          (Ret v, ?w2)"
        using co' v by simp
      have e: "u_start ?wc =
          (case listener_throw (dispatch_chain w (TRequest rid) success_event) of
             None \<Rightarrow> (Ret (), queueTask RunStart (succeeded_at rid v ?w2))
           | Some e \<Rightarrow> (Exn e, succeeded_at rid v ?w2))"
        using u_start_success[OF s' src' co2] dc by simp
      have "snd (u_start ?wc) = succeeded_at rid v ?w2 \<or>
          snd (u_start ?wc) = queueTask RunStart (succeeded_at rid v ?w2)"
        unfolding e by (simp split: option.splits)
      then have "heap (snd (u_start ?wc)) = heap (succeeded_at rid v ?w2) \<and>
          rollbackLog (snd (u_start ?wc)) = rollbackLog (succeeded_at rid v ?w2) \<and>
          state (snd (u_start ?wc)) = state (succeeded_at rid v ?w2)"
        by (auto simp: queueTask_def)
      then have "readyState (heap (snd (u_start ?wc)) rid) = Done \<and>
          result (heap (snd (u_start ?wc)) rid) = v \<and>
          rollbackLog (snd (u_start ?wc)) = rollbackLog w @ pushed_before (op_acts operation) \<and>
          state (snd (u_start ?wc)) = Committing"
        by (simp add: succeeded_at_fields executed_closed_fields)
      then show ?thesis
        using e by blast
    qed
    have bad: "readyState (heap (snd (u_start ?wc)) rid) = Done \<and>
        result (heap (snd (u_start ?wc)) rid) = Undefined \<and>
        req_error (heap (snd (u_start ?wc)) rid) = Some err \<and>
        (\<exists>rest. trace (snd (u_start ?wc)) =
           trace w @ [Executed rid, Dispatched (TRequest rid) error_event] @ rest)"
      if src: "source (heap w rid) \<noteq> None" and v: "outcome_closed operation = Exn err" for err
    proof -
      have src': "source (heap ?wc rid) \<noteq> None"
        using src by simp
      have co2: "call_operation operation rid (?wc\<lparr>started := True, requests := q\<rparr>) =
          (Exn err, ?w2)"
        using co' v by simp
      show ?thesis
        using u_start_failed_shape[OF s' src' co2] by simp
    qed
    show ?thesis
      using co rq tr plain good bad by blast
  qed
  have shrinks: "\<exists>k. requests (run cs ?wc) = drop k (requests w)"
    using run_closed_queue[OF c, of cs] by simp
  have safety: "\<exists>ext. trace (run cs ?wc) = trace w @ ext \<and>
      (filter is_complete ext \<noteq> [] \<longrightarrow>
         (\<forall>x\<in>set (requests w). \<not> done_at w (snd x) \<longrightarrow> executed_first ext (snd x)))"
  proof -
    obtain ext where e: "trace (run cs ?wc) = trace ?wc @ ext"
      using run_trace_grows by blast
    show ?thesis
      using e served_all[OF e] by (intro exI[of _ ext]) simp
  qed
  have drive: "\<exists>ext. trace (run (replicate n CallStart) ?wc) = trace w @ ext \<and>
      state (run (replicate n CallStart) ?wc) = Finished \<and>
      (error (run (replicate n CallStart) ?wc) = None \<longrightarrow>
         filter is_complete ext \<noteq> [] \<and>
         (\<forall>x\<in>set (requests w). \<not> done_at w (snd x) \<longrightarrow> executed_first ext (snd x))) \<and>
      (error w = None \<and> listeners_quiet w \<and>
       list_all (\<lambda>x. returns_closed (fst x)) (requests w) \<longrightarrow>
         error (run (replicate n CallStart) ?wc) = None)"
    if n: "length (requests w) < n" for n
  proof -
    let ?W = "run (replicate n CallStart) ?wc"
    have "length (requests ?wc) < n"
      using n by simp
    then obtain ext where e: "trace ?W = trace ?wc @ ext" "state ?W = Finished"
      "state ?wc \<noteq> Finished \<and> error ?W = None \<longrightarrow> filter is_complete ext \<noteq> []"
      using drive_finishes[OF c] by blast
    have f: "filter is_complete ext \<noteq> []" if "error ?W = None"
      using e(3) that by simp
    have r: "error ?W = None"
      if "error w = None \<and> listeners_quiet w \<and>
          list_all (\<lambda>x. returns_closed (fst x)) (requests w)"
    proof -
      have "listeners_quiet ?wc"
        using that listeners_quiet_cong[of ?wc w] by simp
      moreover have "list_all (\<lambda>x. returns_closed (fst x)) (requests ?wc)"
        using that by simp
      ultimately have "error ?W = error ?wc"
        using c by (intro drive_returning)
      then show ?thesis
        using that by simp
    qed
    show ?thesis
      using e(1,2) f r served_all[OF e(1)] by (intro exI[of _ ext]) simp
  qed
  show ?thesis
  proof (cases "state w = Active")
    case False
    then show ?thesis
      using guard by simp
  next
    case True
    have k: "snd (commit w) = ?wc"
      using sets[OF True] by simp
    show ?thesis
      unfolding k using True sets step shrinks safety drive by blast
  qed
qed

text \<open>The theorem at a new transaction with one queued request, whose operation pushes a
  compensating entry and returns 1: after \<^verbatim>\<open>commit()\<close>, a second \<^verbatim>\<open>commit()\<close>
  throws; the first run of \<^verbatim>\<open>_start\<close> stores the result 1 in the request and leaves the
  entry in the rollback log; after two runs the transaction is finished without an
  error, and the "complete" event has been dispatched, after the operation of the
  request was called.\<close>

theorem commit_drains_queue_witness:
  "state tx_queued = Active \<and> state (snd (commit tx_queued)) = Committing \<and>
   commit (snd (commit tx_queued)) = (Exn InvalidStateError, snd (commit tx_queued)) \<and>
   requests tx_queued = [(op_put, 0)] \<and> \<not> done_at tx_queued 0 \<and>
   shift_pending (requests tx_queued) (heap tx_queued) = (Some (op_put, 0), []) \<and>
   source (heap tx_queued 0) = Some src_A \<and>
   outcome_closed op_put = Ret (Value 1) \<and>
   error tx_queued = None \<and> listeners_quiet tx_queued \<and>
   list_all (\<lambda>x. returns_closed (fst x)) (requests tx_queued) \<and>
   result (heap (snd (u_start (snd (commit tx_queued)))) 0) = Value 1 \<and>
   rollbackLog (snd (u_start (snd (commit tx_queued)))) = [Rollback 7 None] \<and>
   state (run (replicate 2 CallStart) (snd (commit tx_queued))) = Finished \<and>
   error (run (replicate 2 CallStart) (snd (commit tx_queued))) = None \<and>
   filter is_complete (trace (run (replicate 2 CallStart) (snd (commit tx_queued)))) \<noteq> [] \<and>
   executed_first (trace (run (replicate 2 CallStart) (snd (commit tx_queued)))) 0"
proof -
  let ?W = "run (replicate 2 CallStart) (snd (commit tx_queued))"
  let ?obj = "RequestObj (Some src_A) op_put None"
  have a: "state tx_queued = Active"
    by code_simp
  have c: "state (snd (commit tx_queued)) = Committing"
    by code_simp
  have "state (snd (commit tx_queued)) \<noteq> Active"
    using c by simp
  then have g: "commit (snd (commit tx_queued)) =
      (Exn InvalidStateError, snd (commit tx_queued))"
    using commit_drains_queue[of "snd (commit tx_queued)" "[]"] by blast
  have q: "requests tx_queued = [(op_put, 0)]"
    by code_simp
  have d: "\<not> done_at tx_queued 0"
    by code_simp
  have s: "shift_pending (requests tx_queued) (heap tx_queued) = (Some (op_put, 0), [])"
    by code_simp
  have src: "source (heap tx_queued 0) = Some src_A"
    by code_simp
  have o: "outcome_closed op_put = Ret (Value 1)"
    by code_simp
  have e0: "error tx_queued = None"
    by code_simp
  have t0: "trace tx_queued = []"
    by code_simp
  have rc: "list_all (\<lambda>x. returns_closed (fst x)) (requests tx_queued)"
    by code_simp
  have pb: "rollbackLog tx_queued @ pushed_before (op_acts op_put) = [Rollback 7 None]"
    by code_simp
  have "tx_queued = snd (u_execRequestAsync ?obj tx_new)"
    by (simp add: tx_queued_def run_def)
  then have "listeners tx_queued = listeners tx_new"
    using u_execRequestAsync_frame[of tx_new ?obj] by (simp add: operation_frame_def static_def)
  then have lq: "listeners_quiet tx_queued"
    by (simp add: listeners_quiet_def quiet_def tx_new_def FDBTransaction_def)
  have src': "source (heap tx_queued 0) \<noteq> None"
    using src by simp
  have "result (heap (snd (u_start (snd (commit tx_queued)))) 0) = Value 1 \<and>
      rollbackLog (snd (u_start (snd (commit tx_queued)))) =
        rollbackLog tx_queued @ pushed_before (op_acts op_put)"
    using commit_drains_queue[of tx_queued "[]"] a s src' o by blast
  then have r1: "result (heap (snd (u_start (snd (commit tx_queued)))) 0) = Value 1 \<and>
      rollbackLog (snd (u_start (snd (commit tx_queued)))) = [Rollback 7 None]"
    using pb by simp
  have n: "length (requests tx_queued) < 2"
    using q by simp
  obtain ext where e: "trace ?W = trace tx_queued @ ext" "state ?W = Finished"
    "error ?W = None \<longrightarrow>
       filter is_complete ext \<noteq> [] \<and>
       (\<forall>x\<in>set (requests tx_queued). \<not> done_at tx_queued (snd x) \<longrightarrow>
          executed_first ext (snd x))"
    "error tx_queued = None \<and> listeners_quiet tx_queued \<and>
     list_all (\<lambda>x. returns_closed (fst x)) (requests tx_queued) \<longrightarrow> error ?W = None"
    using commit_drains_queue[of tx_queued "[]"] a n by blast
  have x: "ext = trace ?W"
    using e(1) t0 by simp
  have r2: "error ?W = None"
    using e(4) e0 lq rc by blast
  then have "filter is_complete ext \<noteq> [] \<and> executed_first ext 0"
    using e(3) q d by simp
  then have r3: "filter is_complete (trace ?W) \<noteq> [] \<and> executed_first (trace ?W) 0"
    unfolding x .
  show ?thesis
    using a c g q d s src o e0 lq rc r1 e(2) r2 r3 by blast
qed




end
